theory Spec2Isabelle
  imports Main
begin

section \<open>Text\<close>

text \<open>
  The program works on Python \<open>str\<close> values. A \<^typ>\<open>char\<close> of the model is one code point
  in the range 0 to 255; \<^typ>\<open>string\<close> is the text a file read returns. The three
  characters that cannot be typed inside a literal get a name.
\<close>

definition backslash :: char where
  "backslash = CHR 0x5C"

definition dquote :: char where
  "dquote = CHR 0x22"

definition newline :: char where
  "newline = CHR 0x0A"

definition is_space :: "char \<Rightarrow> bool" where
  \<comment> \<open>\<open>str.isspace\<close>, which is also the class \<open>\s\<close> of \<open>re\<close> on \<open>str\<close> patterns.\<close>
  "is_space c \<longleftrightarrow>
     c \<in> {CHR 0x09, CHR 0x0A, CHR 0x0B, CHR 0x0C, CHR 0x0D, CHR 0x1C, CHR 0x1D, CHR 0x1E,
          CHR 0x1F, CHR 0x20, CHR 0x85, CHR 0xA0}"

definition strip :: "string \<Rightarrow> string" where
  \<comment> \<open>\<open>s.strip()\<close>\<close>
  "strip s = rev (dropWhile is_space (rev (dropWhile is_space s)))"

definition startswith :: "string \<Rightarrow> string \<Rightarrow> bool" where
  \<comment> \<open>\<open>s.startswith(p)\<close>\<close>
  "startswith s p \<longleftrightarrow> take (length p) s = p"

definition endswith :: "string \<Rightarrow> string \<Rightarrow> bool" where
  \<comment> \<open>\<open>s.endswith(p)\<close>\<close>
  "endswith s p \<longleftrightarrow> startswith (rev s) (rev p)"

fun contains :: "string \<Rightarrow> string \<Rightarrow> bool" where
  \<comment> \<open>\<open>p in s\<close>\<close>
  "contains [] p = (p = [])"
| "contains (c # cs) p = (startswith (c # cs) p \<or> contains cs p)"

fun split :: "string \<Rightarrow> char \<Rightarrow> string list" where
  \<comment> \<open>\<open>s.split(d)\<close> for a one-character separator: never the empty list.\<close>
  "split [] d = [[]]"
| "split (c # cs) d =
     (let r = split cs d in if c = d then [] # r else (c # hd r) # tl r)"

fun replace_char :: "string \<Rightarrow> char \<Rightarrow> string \<Rightarrow> string" where
  \<comment> \<open>\<open>s.replace(c, t)\<close> for a one-character \<open>c\<close>\<close>
  "replace_char [] c t = []"
| "replace_char (x # xs) c t = (if x = c then t @ replace_char xs c t else x # replace_char xs c t)"

section \<open>Regular expressions\<close>

text \<open>
  The four patterns of the program are sequences of literals and of repeated character
  classes. A pattern is a list of items, and \<open>rx_match\<close> is the backtracking matcher of
  \<open>re\<close>: a greedy repetition first takes one more character and gives it back when the
  rest of the pattern fails, a lazy one first tries the rest and only then takes one more
  character. A successful match returns the text each item consumed and the text left.
\<close>

datatype cls =
    Space   \<comment> \<open>\<open>\s\<close>\<close>
  | Dot     \<comment> \<open>\<open>.\<close>, every character but the newline\<close>
  | Any     \<comment> \<open>\<open>[\s\S]\<close>\<close>

fun in_cls :: "cls \<Rightarrow> char \<Rightarrow> bool" where
  "in_cls Space c = is_space c"
| "in_cls Dot c = (c \<noteq> newline)"
| "in_cls Any c = True"

datatype rx =
    Lit string      \<comment> \<open>literal text\<close>
  | LitI string     \<comment> \<open>literal text under \<open>re.IGNORECASE\<close>\<close>
  | Star cls        \<comment> \<open>\<open>c*\<close>\<close>
  | Plus cls        \<comment> \<open>\<open>c+\<close>\<close>
  | Lazy cls        \<comment> \<open>\<open>c*?\<close>\<close>

definition lower :: "char \<Rightarrow> char" where
  \<comment> \<open>the lower case of an ASCII letter; no other code point below 256 folds to one\<close>
  "lower c =
     (let n = (of_char c :: nat) in if 65 \<le> n \<and> n \<le> 90 then char_of (n + 32) else c)"

definition push :: "string \<Rightarrow> (string list \<times> string) option \<Rightarrow> (string list \<times> string) option" where
  "push p m = map_option (\<lambda>(ps, r). (p # ps, r)) m"

definition grow :: "char \<Rightarrow> (string list \<times> string) option \<Rightarrow> (string list \<times> string) option" where
  "grow c m = map_option (\<lambda>(ps, r). ((c # hd ps) # tl ps, r)) m"

fun rx_match :: "rx list \<Rightarrow> string \<Rightarrow> (string list \<times> string) option" where
  "rx_match [] s = Some ([], s)"
| "rx_match (Lit p # is) s =
     (if startswith s p then push p (rx_match is (drop (length p) s)) else None)"
| "rx_match (LitI p # is) s =
     (if length p \<le> length s \<and> map lower (take (length p) s) = map lower p
      then push (take (length p) s) (rx_match is (drop (length p) s)) else None)"
| "rx_match (Star k # is) [] = push [] (rx_match is [])"
| "rx_match (Star k # is) (c # cs) =
     (if in_cls k c
      then (case grow c (rx_match (Star k # is) cs) of
              Some m \<Rightarrow> Some m
            | None \<Rightarrow> push [] (rx_match is (c # cs)))
      else push [] (rx_match is (c # cs)))"
| "rx_match (Plus k # is) [] = None"
| "rx_match (Plus k # is) (c # cs) =
     (if in_cls k c then grow c (rx_match (Star k # is) cs) else None)"
| "rx_match (Lazy k # is) [] = push [] (rx_match is [])"
| "rx_match (Lazy k # is) (c # cs) =
     (case push [] (rx_match is (c # cs)) of
        Some m \<Rightarrow> Some m
      | None \<Rightarrow> if in_cls k c then grow c (rx_match (Lazy k # is) cs) else None)"

fun rx_search :: "rx list \<Rightarrow> string \<Rightarrow> (string list \<times> string) option" where
  \<comment> \<open>\<open>re.search\<close>: the match at the leftmost position that has one\<close>
  "rx_search p [] = rx_match p []"
| "rx_search p (c # cs) =
     (case rx_match p (c # cs) of Some m \<Rightarrow> Some m | None \<Rightarrow> rx_search p cs)"

subsection \<open>Replacement templates\<close>

text \<open>
  \<open>re.sub\<close> parses its replacement string before it looks for a match: a backslash
  starts a group reference (\<open>\1\<close>, \<open>\g<1>\<close>), an octal or a named escape, a
  backslash before another ASCII letter or at the end of the string is an error, and a
  backslash before any other character stays, with that character. \<open>None\<close> is the
  exception \<open>re.error\<close> (\<open>IndexError\<close> for the name of a group the pattern lacks).
\<close>

datatype tpl = TLit char | TGroup nat

definition is_digit :: "char \<Rightarrow> bool" where
  "is_digit c \<longleftrightarrow> 48 \<le> (of_char c :: nat) \<and> (of_char c :: nat) \<le> 57"

definition is_octdigit :: "char \<Rightarrow> bool" where
  "is_octdigit c \<longleftrightarrow> 48 \<le> (of_char c :: nat) \<and> (of_char c :: nat) \<le> 55"

definition is_ascii_letter :: "char \<Rightarrow> bool" where
  "is_ascii_letter c \<longleftrightarrow>
     (65 \<le> (of_char c :: nat) \<and> (of_char c :: nat) \<le> 90) \<or>
     (97 \<le> (of_char c :: nat) \<and> (of_char c :: nat) \<le> 122)"

definition digit_val :: "char \<Rightarrow> nat" where
  "digit_val c = of_char c - 48"

definition int_of_digits :: "nat \<Rightarrow> string \<Rightarrow> nat" where
  \<comment> \<open>\<open>int(s, base)\<close> on a string of digits\<close>
  "int_of_digits base s = foldl (\<lambda>a c. a * base + digit_val c) 0 s"

definition named_escape :: "char \<Rightarrow> char option" where
  "named_escape d =
     (if d = CHR ''a'' then Some (CHR 0x07)
      else if d = CHR ''b'' then Some (CHR 0x08)
      else if d = CHR ''f'' then Some (CHR 0x0C)
      else if d = CHR ''n'' then Some (CHR 0x0A)
      else if d = CHR ''r'' then Some (CHR 0x0D)
      else if d = CHR ''t'' then Some (CHR 0x09)
      else if d = CHR ''v'' then Some (CHR 0x0B)
      else if d = backslash then Some backslash
      else None)"

definition tpl_escape :: "nat \<Rightarrow> char \<Rightarrow> string \<Rightarrow> (tpl list \<times> nat) option" where
  \<comment> \<open>The escape \<open>\d\<close> before the text \<open>s\<close>, in a pattern of \<open>n\<close> groups: the items it
      stands for and how many characters of \<open>s\<close> belong to it.\<close>
  "tpl_escape n d s =
     (if d = CHR ''g'' then
        (if \<not> startswith s ''<'' then None
         else let name = takeWhile (\<lambda>c. c \<noteq> CHR ''>'') (tl s) in
           if length name = length (tl s) \<or> name = [] then None
           else if \<not> list_all is_digit name then None
           else if int_of_digits 10 name > n then None
           else Some ([TGroup (int_of_digits 10 name)], length name + 2))
      else if d = CHR ''0'' then
        (let ds = takeWhile is_octdigit (take 2 s)
         in Some ([TLit (char_of (int_of_digits 8 ds mod 256))], length ds))
      else if is_digit d then
        (case s of
           e # s' \<Rightarrow>
             if is_digit e then
               (if is_octdigit d \<and> is_octdigit e \<and> (case s' of f # _ \<Rightarrow> is_octdigit f | [] \<Rightarrow> False)
                then (let v = int_of_digits 8 (d # e # take 1 s')
                      in if v > 255 then None else Some ([TLit (char_of v)], 2))
                else if int_of_digits 10 [d, e] > n then None
                else Some ([TGroup (int_of_digits 10 [d, e])], 1))
             else if digit_val d > n then None else Some ([TGroup (digit_val d)], 0)
         | [] \<Rightarrow> if digit_val d > n then None else Some ([TGroup (digit_val d)], 0))
      else
        (case named_escape d of
           Some c \<Rightarrow> Some ([TLit c], 0)
         | None \<Rightarrow> if is_ascii_letter d then None else Some ([TLit backslash, TLit d], 0)))"

function parse_template :: "nat \<Rightarrow> string \<Rightarrow> tpl list option" where
  "parse_template n [] = Some []"
| "parse_template n (c # s) =
     (if c \<noteq> backslash then map_option ((#) (TLit c)) (parse_template n s)
      else case s of
             [] \<Rightarrow> None
           | d # s' \<Rightarrow>
               (case tpl_escape n d s' of
                  None \<Rightarrow> None
                | Some (items, k) \<Rightarrow> map_option ((@) items) (parse_template n (drop k s'))))"
  by pat_completeness auto
termination
  by (relation "measure (\<lambda>(n, s). length s)") auto

fun expand :: "tpl list \<Rightarrow> string list \<Rightarrow> string" where
  \<comment> \<open>\<open>match.expand\<close>: the groups are put in as they are\<close>
  "expand [] gs = []"
| "expand (TLit c # t) gs = c # expand t gs"
| "expand (TGroup i # t) gs = gs ! i @ expand t gs"

subsection \<open>Substitution\<close>

text \<open>
  A pattern comes with the places of its groups: group \<open>i\<close> is the text of the items from
  one index up to another. Group 0 is the whole match.
\<close>

type_synonym regex = "rx list \<times> (nat \<times> nat) list"

definition groups_of :: "(nat \<times> nat) list \<Rightarrow> string list \<Rightarrow> string list" where
  "groups_of spans ps = concat ps # map (\<lambda>(a, b). concat (take (b - a) (drop a ps))) spans"

text \<open>
  \<open>re.sub\<close> goes through the text from the left: where the pattern matches, the expanded
  template is put out and the scan goes on behind the match; elsewhere one character is
  copied. Every pattern of the program consumes at least one character; the scan takes a
  match that consumed nothing as no match.
\<close>

function sub_scan :: "regex \<Rightarrow> tpl list \<Rightarrow> string \<Rightarrow> string" where
  "sub_scan p t [] = []"
| "sub_scan p t (c # cs) =
     (case rx_match (fst p) (c # cs) of
        Some (ps, r) \<Rightarrow>
          if length r \<le> length cs then expand t (groups_of (snd p) ps) @ sub_scan p t r
          else c # sub_scan p t cs
      | None \<Rightarrow> c # sub_scan p t cs)"
  by pat_completeness auto
termination
  by (relation "measure (\<lambda>(p, t, s). length s)") auto

definition re_sub :: "regex \<Rightarrow> string \<Rightarrow> string \<Rightarrow> string option" where
  \<comment> \<open>\<open>re.sub(pattern, repl, s)\<close>\<close>
  "re_sub p repl s = map_option (\<lambda>t. sub_scan p t s) (parse_template (length (snd p)) repl)"

section \<open>The files and the messages\<close>

text \<open>
  The program reads \<open>README.md\<close>, reads \<open>index.html\<close> and may write \<open>index.html\<close>.
  A file is the text that reading it returns, \<open>None\<close> when it does not exist. What the
  program prints is a list of messages. A function returns \<open>None\<close> when an exception
  leaves it.
\<close>

record files =
  readme_md :: "string option"
  index_html :: "string option"

datatype message =
    ReadmeNotFound    \<comment> \<open>\<open>Error: README.md not found.\<close>\<close>
  | HeaderNotFound    \<comment> \<open>\<open>Error: Could not find the table header in README.md\<close>\<close>
  | HtmlNotFound      \<comment> \<open>\<open>Error: index.html not found.\<close>\<close>
  | DataNotFound      \<comment> \<open>\<open>Error: Could not find 'const data = [...]' in index.html\<close>\<close>
  | Updated nat       \<comment> \<open>\<open>Successfully updated index.html with n entries.\<close>\<close>

section \<open>parse\_readme\<close>

record entry =
  time :: string  venue :: string  paper :: string  question :: string  "method" :: string
  remark :: string  bib :: string

definition header_pattern :: regex where
  "header_pattern =
     ([Lit ''|'', Star Space, LitI ''Time'', Star Space,
       Lit ''|'', Star Space, LitI ''Venue'', Star Space,
       Lit ''|'', Star Space, LitI ''Paper'', Star Space,
       Lit ''|'', Star Space, LitI ''Research Question/Idea'', Star Space,
       Lit ''|'', Star Space, LitI ''Method'', Star Space,
       Lit ''|'', Star Space, LitI ''Remark'', Star Space,
       Lit ''|'', Star Space, LitI ''Bib'', Star Space,
       Lit ''|''], [])"

definition link_pattern :: regex where
  \<comment> \<open>\<open>\[(.*?)\]\((.*?)\)\<close>\<close>
  "link_pattern = ([Lit ''['', Lazy Dot, Lit ''](''  , Lazy Dot, Lit '')''], [(1, 2), (3, 4)])"

definition link_repl :: string where
  \<comment> \<open>\<open><a href="\2">\1</a>\<close>\<close>
  "link_repl = ''<a href='' @ [dquote, backslash] @ ''2'' @ [dquote] @ ''>'' @ [backslash] @ ''1</a>''"

definition bold_pattern :: regex where
  \<comment> \<open>\<open>\*\*(.*?)\*\*\<close>\<close>
  "bold_pattern = ([Lit ''**'', Lazy Dot, Lit ''**''], [(1, 2)])"

definition bold_repl :: string where
  \<comment> \<open>\<open><strong>\1</strong>\<close>\<close>
  "bold_repl = ''<strong>'' @ [backslash] @ ''1</strong>''"

definition anchor :: "string \<Rightarrow> string \<Rightarrow> string" where
  \<comment> \<open>\<open><a href="url">label</a>\<close>\<close>
  "anchor url label = ''<a href='' @ [dquote] @ url @ [dquote] @ ''>'' @ label @ ''</a>''"

definition strong :: "string \<Rightarrow> string" where
  \<comment> \<open>\<open><strong>text</strong>\<close>\<close>
  "strong text = ''<strong>'' @ text @ ''</strong>''"

definition make_entry :: "string list \<Rightarrow> entry option" where
  \<comment> \<open>The body of \<open>if len(cols) >= 6\<close>, up to \<open>data.append\<close>.\<close>
  "make_entry cols =
     (case re_sub link_pattern link_repl (cols ! 2) of
        None \<Rightarrow> None
      | Some paper_html \<Rightarrow>
     (case re_sub bold_pattern bold_repl (cols ! 3) of
        None \<Rightarrow> None
      | Some question_html \<Rightarrow>
     (case re_sub bold_pattern bold_repl (cols ! 4) of
        None \<Rightarrow> None
      | Some method_html \<Rightarrow>
          Some \<lparr>time = cols ! 0, venue = cols ! 1, paper = paper_html,
                question = question_html, method = method_html, remark = cols ! 5,
                bib = (if length cols > 6 then cols ! 6 else [])\<rparr>)))"

definition row_cols :: "string \<Rightarrow> string list" where
  \<comment> \<open>The cells of a stripped line: the leading and the trailing pipe go, the rest is split.\<close>
  "row_cols line =
     (let line = (if startswith line ''|'' then drop 1 line else line);
          line = (if endswith line ''|'' then butlast line else line)
      in map strip (split line (CHR ''|'')))"

fun process_lines :: "string list \<Rightarrow> entry list \<Rightarrow> entry list option" where
  \<comment> \<open>The \<open>for\<close> loop over the lines, \<open>data\<close> being the list built so far.\<close>
  "process_lines [] data = Some data"
| "process_lines (l # ls) data =
     (let line = strip l in
      if \<not> startswith line ''|'' then process_lines ls data
      else if \<not> startswith line ''|'' then Some data
      else let cols = row_cols line in
        if length cols \<ge> 6 then
          (case make_entry cols of
             None \<Rightarrow> None
           | Some e \<Rightarrow> process_lines ls (data @ [e]))
        else process_lines ls data)"

definition table_lines :: "string \<Rightarrow> string list" where
  \<comment> \<open>\<open>lines[start_idx:]\<close> of the text behind the header\<close>
  "table_lines table_content =
     (let lines = split (strip table_content) newline;
          start_idx = (if startswith (strip (hd lines)) ''|'' \<and> contains (hd lines) ''---''
                       then 1 else 0)
      in drop start_idx lines)"

definition parse_content :: "string \<Rightarrow> (entry list \<times> message list) option" where
  \<comment> \<open>\<open>parse_readme\<close> from the text of the file on\<close>
  "parse_content content =
     (case rx_search (fst header_pattern) content of
        None \<Rightarrow> Some ([], [HeaderNotFound])
      | Some (ps, table_content) \<Rightarrow>
          map_option (\<lambda>data. (data, [])) (process_lines (table_lines table_content) []))"

definition parse_readme :: "files \<Rightarrow> (entry list \<times> message list) option" where
  "parse_readme fs =
     (case readme_md fs of
        None \<Rightarrow> Some ([], [ReadmeNotFound])
      | Some content \<Rightarrow> parse_content content)"

section \<open>update\_index\_html\<close>

subsection \<open>json.dumps\<close>

definition hex4 :: "nat \<Rightarrow> string" where
  \<comment> \<open>\<open>'{0:04x}'.format(n)\<close>\<close>
  "hex4 n = map (\<lambda>i. ''0123456789abcdef'' ! (n div 16 ^ i mod 16)) [3, 2, 1, 0]"

definition json_char :: "char \<Rightarrow> string" where
  \<comment> \<open>One character of a string under \<open>ensure_ascii\<close>.\<close>
  "json_char c =
     (if c = dquote then [backslash, dquote]
      else if c = backslash then [backslash, backslash]
      else if c = CHR 0x0A then [backslash, CHR ''n'']
      else if c = CHR 0x0D then [backslash, CHR ''r'']
      else if c = CHR 0x09 then [backslash, CHR ''t'']
      else if c = CHR 0x08 then [backslash, CHR ''b'']
      else if c = CHR 0x0C then [backslash, CHR ''f'']
      else if 32 \<le> (of_char c :: nat) \<and> (of_char c :: nat) \<le> 126 then [c]
      else backslash # CHR ''u'' # hex4 (of_char c))"

definition json_string :: "string \<Rightarrow> string" where
  "json_string s = dquote # concat (map json_char s) @ [dquote]"

definition json_member :: "string \<Rightarrow> string \<Rightarrow> string" where
  \<comment> \<open>one key of an object at depth 2, behind its line break and its 8 blanks\<close>
  "json_member k v = newline # replicate 8 (CHR '' '') @ json_string k @ '': '' @ json_string v"

definition json_entry :: "entry \<Rightarrow> string" where
  "json_entry e =
     ''{'' @ json_member ''time'' (time e) @ '','' @ json_member ''venue'' (venue e) @ '','' @
     json_member ''paper'' (paper e) @ '','' @ json_member ''question'' (question e) @ '','' @
     json_member ''method'' (method e) @ '','' @ json_member ''remark'' (remark e) @ '','' @
     json_member ''bib'' (bib e) @ newline # replicate 4 (CHR '' '') @ ''}''"

fun json_items :: "entry list \<Rightarrow> string" where
  "json_items [] = []"
| "json_items [e] = newline # replicate 4 (CHR '' '') @ json_entry e"
| "json_items (e # es) = newline # replicate 4 (CHR '' '') @ json_entry e @ '','' @ json_items es"

definition json_dumps :: "entry list \<Rightarrow> string" where
  \<comment> \<open>\<open>json.dumps(data, indent=4)\<close> on a list of entries\<close>
  "json_dumps data = (if data = [] then ''[]'' else ''['' @ json_items data @ [newline] @ '']'')"

subsection \<open>The injection\<close>

definition data_pattern :: regex where
  \<comment> \<open>\<open>(const\s+data\s*=\s*)\[[\s\S]*?\];\<close>\<close>
  "data_pattern =
     ([Lit ''const'', Plus Space, Lit ''data'', Star Space, Lit ''='', Star Space,
       Lit ''['', Lazy Any, Lit ''];''], [(0, 6)])"

definition data_repl :: "string \<Rightarrow> string" where
  \<comment> \<open>\<open>f"\\1{new_data_json_escaped};"\<close>\<close>
  "data_repl new_data_json_escaped = backslash # ''1'' @ new_data_json_escaped @ '';''"

definition update_content :: "entry list \<Rightarrow> string \<Rightarrow> (string option \<times> message list) option" where
  \<comment> \<open>\<open>update_index_html\<close> from the text of the file on: the text written, if any, and
      what is printed.\<close>
  "update_content data html_content =
     (let new_data_json = json_dumps data in
      if rx_search (fst data_pattern) html_content = None then Some (None, [DataNotFound])
      else
        let new_data_json_escaped = replace_char new_data_json backslash [backslash, backslash]
        in case re_sub data_pattern (data_repl new_data_json_escaped) html_content of
             None \<Rightarrow> None
           | Some new_html_content \<Rightarrow> Some (Some new_html_content, [Updated (length data)]))"

definition update_index_html :: "entry list \<Rightarrow> files \<Rightarrow> (files \<times> message list) option" where
  "update_index_html data fs =
     (case index_html fs of
        None \<Rightarrow> Some (fs, [HtmlNotFound])
      | Some html_content \<Rightarrow>
          (case update_content data html_content of
             None \<Rightarrow> None
           | Some (None, out) \<Rightarrow> Some (fs, out)
           | Some (Some new_html_content, out) \<Rightarrow>
               Some (fs\<lparr>index_html := Some new_html_content\<rparr>, out)))"

section \<open>The program\<close>

definition main :: "files \<Rightarrow> (files \<times> message list) option" where
  "main fs =
     (case parse_readme fs of
        None \<Rightarrow> None
      | Some (entries, out) \<Rightarrow>
          if entries \<noteq> [] then
            (case update_index_html entries fs of
               None \<Rightarrow> None
             | Some (fs', out') \<Rightarrow> Some (fs', out @ out'))
          else Some (fs, out))"

section \<open>Notions used in the statements\<close>

text \<open>
  The two replacement templates after \<open>re.sub\<close> has parsed them, and what it means for a
  piece of text to be in the language of one item of a pattern.
\<close>

definition link_tpl :: "tpl list" where
  "link_tpl =
     map TLit ''<a href='' @ [TLit dquote, TGroup 2, TLit dquote, TLit (CHR ''>''), TGroup 1] @
     map TLit ''</a>''"

definition bold_tpl :: "tpl list" where
  "bold_tpl = map TLit ''<strong>'' @ [TGroup 1] @ map TLit ''</strong>''"

fun piece_ok :: "rx \<Rightarrow> string \<Rightarrow> bool" where
  "piece_ok (Lit q) x = (x = q)"
| "piece_ok (LitI q) x = (map lower x = map lower q)"
| "piece_ok (Star k) x = (\<forall>c\<in>set x. in_cls k c)"
| "piece_ok (Plus k) x = (x \<noteq> [] \<and> (\<forall>c\<in>set x. in_cls k c))"
| "piece_ok (Lazy k) x = (\<forall>c\<in>set x. in_cls k c)"

definition occurs :: "rx list \<Rightarrow> string \<Rightarrow> bool" where
  \<comment> \<open>Some part of the text is in the language of the pattern: it is made of one piece for
      each item, each piece in the language of its item.\<close>
  "occurs p s \<longleftrightarrow> (\<exists>pre ps post. s = pre @ concat ps @ post \<and> list_all2 piece_ok p ps)"

text \<open>
  The statements of a document, as \<open>re.sub\<close> meets them: going through the text from the
  left, a place where the data pattern matches gives a statement, with the pieces of the
  match, and the scan goes on behind it; any other place gives the character there.
\<close>

datatype seg = Copy char | Stmt "string list"

function segments :: "string \<Rightarrow> seg list" where
  "segments [] = []"
| "segments (c # cs) =
     (case rx_match (fst data_pattern) (c # cs) of
        Some (ps, r) \<Rightarrow>
          if length r \<le> length cs then Stmt ps # segments r else Copy c # segments cs
      | None \<Rightarrow> Copy c # segments cs)"
  by pat_completeness auto
termination
  by (relation "measure length") auto

fun seg_text :: "seg \<Rightarrow> string" where
  \<comment> \<open>the text of a segment in the document\<close>
  "seg_text (Copy c) = [c]"
| "seg_text (Stmt ps) = concat ps"

fun seg_new :: "string \<Rightarrow> seg \<Rightarrow> string" where
  \<comment> \<open>the text that takes its place: a statement keeps its first six pieces, which are
      \<open>const data =\<close> with its white space, and gets the new text and a semicolon\<close>
  "seg_new j (Copy c) = [c]"
| "seg_new j (Stmt ps) = concat (take 6 ps) @ j @ '';''"

fun is_stmt :: "seg \<Rightarrow> bool" where
  "is_stmt (Copy c) = False"
| "is_stmt (Stmt ps) = True"

text \<open>The replacement template of the injection after \<open>re.sub\<close> has parsed it.\<close>

definition data_tpl :: "string \<Rightarrow> tpl list" where
  "data_tpl j = TGroup 1 # map TLit j @ [TLit (CHR '';'')]"

text \<open>
  The white space of a statement, \<open>const\<close> w1 \<open>data\<close> w2 \<open>=\<close> w3, and the document with
  the text \<open>j\<close> in the place of every statement.
\<close>

definition data_prefix :: "string \<Rightarrow> string \<Rightarrow> string \<Rightarrow> bool" where
  "data_prefix w1 w2 w3 \<longleftrightarrow>
     w1 \<noteq> [] \<and> (\<forall>c\<in>set w1. is_space c) \<and> (\<forall>c\<in>set w2. is_space c) \<and> (\<forall>c\<in>set w3. is_space c)"

abbreviation spliced :: "string \<Rightarrow> string \<Rightarrow> string" where
  "spliced j s \<equiv> sub_scan data_pattern (data_tpl j) s"

text \<open>
  A text is safe when \<open>];\<close> is not in it and cannot come about at either end of it when
  it is put between other texts. An entry is clean when \<open>];\<close> is in none of its fields.
\<close>

definition safe :: "string \<Rightarrow> bool" where
  "safe s \<longleftrightarrow> \<not> contains s ''];'' \<and> (s = [] \<or> (hd s \<noteq> CHR '';'' \<and> last s \<noteq> CHR '']''))"

definition clean_entry :: "entry \<Rightarrow> bool" where
  "clean_entry e \<longleftrightarrow>
     \<not> contains (time e) ''];'' \<and> \<not> contains (venue e) ''];'' \<and> \<not> contains (paper e) ''];'' \<and>
     \<not> contains (question e) ''];'' \<and> \<not> contains (method e) ''];'' \<and>
     \<not> contains (remark e) ''];'' \<and> \<not> contains (bib e) ''];''"

section \<open>Facts about the text primitives and the matcher\<close>

lemma split_not_Nil: "split s d \<noteq> []"
  by (induction s) (auto simp: Let_def)

lemma startswith_Nil [simp]: "startswith s []"
  by (simp add: startswith_def)

lemma startswith_append [simp]: "startswith (p @ s) p"
  by (simp add: startswith_def)

lemma startswith_Cons: "startswith (c # cs) (q # qs) \<longleftrightarrow> c = q \<and> startswith cs qs"
  by (auto simp: startswith_def)

lemma startswith_Nil_left: "startswith [] p \<longleftrightarrow> p = []"
  by (auto simp: startswith_def)

lemma startswith_decomp: "startswith s p \<Longrightarrow> s = p @ drop (length p) s"
  by (metis append_take_drop_id startswith_def)

lemma startswith_iff: "startswith s p \<longleftrightarrow> (\<exists>r. s = p @ r)"
  by (metis startswith_append startswith_decomp)

lemma push_simps [simp]: "push p None = None" "push p (Some (ps, r)) = Some (p # ps, r)"
  by (simp_all add: push_def)

lemma grow_simps [simp]: "grow c None = None" "grow c (Some (ps, r)) = Some ((c # hd ps) # tl ps, r)"
  by (simp_all add: grow_def)

lemma push_Some: "push p m = Some x \<longleftrightarrow> (\<exists>ps r. m = Some (ps, r) \<and> x = (p # ps, r))"
  by (cases m) (auto simp: push_def)

lemma push_None [simp]: "push p m = None \<longleftrightarrow> m = None"
  by (simp add: push_def)

lemma grow_Some: "grow c m = Some x \<longleftrightarrow> (\<exists>ps r. m = Some (ps, r) \<and> x = ((c # hd ps) # tl ps, r))"
  by (cases m) (auto simp: grow_def)

lemma grow_None [simp]: "grow c m = None \<longleftrightarrow> m = None"
  by (simp add: grow_def)

lemma rx_match_sound:
  "rx_match p s = Some (ps, r) \<Longrightarrow> s = concat ps @ r \<and> list_all2 piece_ok p ps"
proof (induction p s arbitrary: ps r rule: rx_match.induct)
  case (1 s)
  then show ?case by simp
next
  case (2 q "is" s)
  then show ?case
    by (auto simp: push_Some split: if_splits dest: startswith_decomp)
next
  case (3 q "is" s)
  then show ?case
    by (auto simp: push_Some split: if_splits) (metis append_take_drop_id)
next
  case (4 k "is")
  then show ?case by (auto simp: push_Some)
next
  case (5 k "is" c cs)
  show ?case
  proof (cases "in_cls k c \<and> rx_match (Star k # is) cs \<noteq> None")
    case True
    then obtain ps' r' where m: "rx_match (Star k # is) cs = Some (ps', r')" by auto
    with True 5 have eq: "ps = (c # hd ps') # tl ps'" "r = r'"
      by (auto simp: grow_def)
    from "5.IH"(1)[OF _ m] True have ih: "cs = concat ps' @ r'" "list_all2 piece_ok (Star k # is) ps'"
      by auto
    then obtain x xs where "ps' = x # xs" by (cases ps') auto
    with ih eq True show ?thesis by auto
  next
    case False
    with 5 show ?thesis
      by (auto simp: push_Some grow_def split: if_splits option.splits)
  qed
next
  case (6 k "is")
  then show ?case by simp
next
  case (7 k "is" c cs)
  then obtain ps' where m: "rx_match (Star k # is) cs = Some (ps', r)" "ps = (c # hd ps') # tl ps'" "in_cls k c"
    by (auto simp: grow_Some split: if_splits)
  from "7.IH"[OF m(3) m(1)] have ih: "cs = concat ps' @ r" "list_all2 piece_ok (Star k # is) ps'"
    by auto
  then obtain x xs where "ps' = x # xs" by (cases ps') auto
  with ih m show ?case by auto
next
  case (8 k "is")
  then show ?case by (auto simp: push_Some)
next
  case (9 k "is" c cs)
  show ?case
  proof (cases "rx_match is (c # cs)")
    case None
    with 9 obtain ps' where m: "rx_match (Lazy k # is) cs = Some (ps', r)" "ps = (c # hd ps') # tl ps'" "in_cls k c"
      by (auto simp: grow_Some split: if_splits)
    from "9.IH"(2)[OF _ m(3) m(1)] None have ih: "cs = concat ps' @ r" "list_all2 piece_ok (Lazy k # is) ps'"
      by (auto simp: push_def)
    then obtain x xs where "ps' = x # xs" by (cases ps') auto
    with ih m show ?thesis by auto
  next
    case (Some a)
    obtain ps0 r0 where a: "a = (ps0, r0)" by (cases a)
    from "9.prems" Some a have eq: "ps = [] # ps0" "r = r0" by auto
    from "9.IH"(1)[of ps0 r0] Some a have "c # cs = concat ps0 @ r0 \<and> list_all2 piece_ok is ps0"
      by simp
    with eq show ?thesis by simp
  qed
qed

lemma rx_match_Lit_append [simp]: "rx_match (Lit q # is) (q @ s) = push q (rx_match is s)"
  by simp

lemma rx_match_length: "rx_match p s = Some (ps, r) \<Longrightarrow> length s = length (concat ps) + length r"
  by (drule rx_match_sound) auto

lemma rx_match_Lit_shorter:
  assumes "rx_match (Lit (q # qs) # is) s = Some (ps, r)"
  shows "length r < length s"
proof -
  from rx_match_sound[OF assms] obtain x xs where "s = concat ps @ r" "ps = x # xs" "x = q # qs"
    by (cases ps) auto
  then show ?thesis by (metis append_Cons concat.simps(2) length_Cons length_append less_add_Suc2 add.commute less_SucI trans_less_add2 )
qed

lemma star_greedy:
  assumes "\<forall>c\<in>set w. in_cls k c" and "y = [] \<or> \<not> in_cls k (hd y)"
    and "rx_match is y = Some (ps, r)"
  shows "rx_match (Star k # is) (w @ y) = Some (w # ps, r)"
  using assms
proof (induction w)
  case Nil
  then show ?case by (cases y) auto
next
  case (Cons a w)
  then show ?case by simp
qed

lemma plus_greedy:
  assumes "w \<noteq> []" "\<forall>c\<in>set w. in_cls k c" and "y = [] \<or> \<not> in_cls k (hd y)"
    and "rx_match is y = Some (ps, r)"
  shows "rx_match (Plus k # is) (w @ y) = Some (w # ps, r)"
proof -
  from assms(1) obtain a w' where w: "w = a # w'" by (cases w) auto
  with assms star_greedy[of w' k y "is" ps r] show ?thesis by simp
qed

lemma startswith_longer: "length q \<le> length u \<Longrightarrow> startswith (u @ v) q = startswith u q"
  by (simp add: startswith_def)

lemma lazy_first:
  assumes "\<forall>c\<in>set x. in_cls k c" and "q \<noteq> []" and "\<not> contains (x @ butlast q) q"
    and "rx_match is y = Some (ps, r)"
  shows "rx_match (Lazy k # Lit q # is) (x @ q @ y) = Some (x # q # ps, r)"
  using assms
proof (induction x)
  case Nil
  then obtain a q' where q: "q = a # q'" by (cases q) auto
  have "startswith (a # q' @ y) (a # q')" using startswith_append[of "a # q'" y] by simp
  with Nil q show ?case using rx_match_Lit_append[of "a # q'" "is" y] by simp
next
  case (Cons a x)
  have "startswith ((a # x) @ q @ y) q = startswith ((a # x) @ butlast q) q"
  proof -
    have "q = butlast q @ [last q]" using Cons.prems(2) by simp
    then have "(a # x) @ q @ y = ((a # x) @ butlast q) @ (last q # y)"
      by (metis append.assoc append_Cons append_Nil)
    moreover have "length q \<le> length ((a # x) @ butlast q)" by simp
    ultimately show ?thesis using startswith_longer by metis
  qed
  then have ns: "\<not> startswith (a # x @ q @ y) q" using Cons.prems(3) by simp
  from Cons have ih: "rx_match (Lazy k # Lit q # is) (x @ q @ y) = Some (x # q # ps, r)" by simp
  from Cons.prems ns ih show ?case by simp
qed

lemma star_complete:
  assumes "\<forall>c\<in>set x. in_cls k c" and "rx_match is y \<noteq> None"
  shows "rx_match (Star k # is) (x @ y) \<noteq> None"
  using assms
proof (induction x)
  case Nil
  then show ?case by (cases y) (auto split: option.splits)
next
  case (Cons a x)
  then show ?case by (auto split: option.splits)
qed

lemma lazy_complete:
  assumes "\<forall>c\<in>set x. in_cls k c" and "rx_match is y \<noteq> None"
  shows "rx_match (Lazy k # is) (x @ y) \<noteq> None"
  using assms
proof (induction x)
  case Nil
  then show ?case by (cases y) (auto split: option.splits)
next
  case (Cons a x)
  then show ?case by (auto split: option.splits)
qed

lemma rx_match_complete:
  "list_all2 piece_ok p ps \<Longrightarrow> rx_match p (concat ps @ r) \<noteq> None"
proof (induction p arbitrary: ps r)
  case Nil
  then show ?case by simp
next
  case (Cons i "is")
  then obtain x xs where ps: "ps = x # xs" "piece_ok i x" "list_all2 piece_ok is xs"
    by (cases ps) auto
  from Cons.IH[OF ps(3)] have ih: "rx_match is (concat xs @ r) \<noteq> None" .
  show ?case
  proof (cases i)
    case (Lit q)
    with ps ih show ?thesis by auto
  next
    case (LitI q)
    with ps have "length x = length q" by (metis length_map piece_ok.simps(2))
    with LitI ps ih show ?thesis by auto
  next
    case (Star k)
    with ps ih star_complete[of x k "is" "concat xs @ r"] show ?thesis by simp
  next
    case (Plus k)
    with ps obtain a x' where x: "x = a # x'" by (cases x) auto
    with Plus ps ih star_complete[of x' k "is" "concat xs @ r"] show ?thesis by simp
  next
    case (Lazy k)
    with ps ih lazy_complete[of x k "is" "concat xs @ r"] show ?thesis by simp
  qed
qed

lemma rx_search_None_iff: "rx_search p s = None \<longleftrightarrow> (\<forall>i\<le>length s. rx_match p (drop i s) = None)"
proof (induction s)
  case Nil
  then show ?case by simp
next
  case (Cons c cs)
  have "(\<forall>i\<le>length (c # cs). rx_match p (drop i (c # cs)) = None) \<longleftrightarrow>
        rx_match p (c # cs) = None \<and> (\<forall>i\<le>length cs. rx_match p (drop i cs) = None)"
    (is "?L \<longleftrightarrow> ?R")
  proof
    assume l: ?L
    then have "rx_match p (drop 0 (c # cs)) = None" by blast
    moreover have "rx_match p (drop i cs) = None" if "i \<le> length cs" for i
      using l[rule_format, of "Suc i"] that by simp
    ultimately show ?R by simp
  next
    assume r: ?R
    show ?L
    proof (intro allI impI)
      fix i assume "i \<le> length (c # cs)"
      then show "rx_match p (drop i (c # cs)) = None" using r by (cases i) auto
    qed
  qed
  with Cons show ?case by (simp split: option.splits)
qed

lemma occurs_iff_search: "occurs p s \<longleftrightarrow> rx_search p s \<noteq> None"
proof
  assume "occurs p s"
  then obtain pre ps post where s: "s = pre @ concat ps @ post" "list_all2 piece_ok p ps"
    by (auto simp: occurs_def)
  then have m: "rx_match p (drop (length pre) s) \<noteq> None"
    using rx_match_complete by simp
  have le: "length pre \<le> length s" using s by simp
  show "rx_search p s \<noteq> None"
  proof
    assume "rx_search p s = None"
    then have "\<forall>i\<le>length s. rx_match p (drop i s) = None"
      by (simp only: rx_search_None_iff)
    with le have "rx_match p (drop (length pre) s) = None" by simp
    with m show False by contradiction
  qed
next
  assume ne: "rx_search p s \<noteq> None"
  have "\<not> (\<forall>i\<le>length s. rx_match p (drop i s) = None)"
  proof
    assume "\<forall>i\<le>length s. rx_match p (drop i s) = None"
    then have "rx_search p s = None" by (simp only: rx_search_None_iff)
    with ne show False by contradiction
  qed
  then obtain i where i: "i \<le> length s" "rx_match p (drop i s) \<noteq> None"
    by (auto simp only: not_all not_imp)
  then obtain ps r where m: "rx_match p (drop i s) = Some (ps, r)" by auto
  from rx_match_sound[OF m] have "drop i s = concat ps @ r" "list_all2 piece_ok p ps" by auto
  then have "s = take i s @ concat ps @ r \<and> list_all2 piece_ok p ps"
    by (metis append_take_drop_id)
  then show "occurs p s" unfolding occurs_def by blast
qed

lemma rx_match_None_iff:
  "rx_match p s = None \<longleftrightarrow> \<not> (\<exists>ps r. s = concat ps @ r \<and> list_all2 piece_ok p ps)"
proof
  assume n: "rx_match p s = None"
  show "\<not> (\<exists>ps r. s = concat ps @ r \<and> list_all2 piece_ok p ps)"
  proof
    assume "\<exists>ps r. s = concat ps @ r \<and> list_all2 piece_ok p ps"
    then obtain ps r where "s = concat ps @ r" "list_all2 piece_ok p ps" by blast
    with rx_match_complete[of p ps r] n show False by simp
  qed
next
  assume a: "\<not> (\<exists>ps r. s = concat ps @ r \<and> list_all2 piece_ok p ps)"
  show "rx_match p s = None"
  proof (cases "rx_match p s")
    case None
    then show ?thesis .
  next
    case (Some m)
    obtain ps r where "m = (ps, r)" by (cases m)
    with Some rx_match_sound[of p s ps r] a show ?thesis by blast
  qed
qed

section \<open>Facts about substitution and the row loop\<close>

lemma sub_scan_match:
  assumes "fst p = Lit (q # qs) # is" and "rx_match (fst p) s = Some (ps, r)"
  shows "sub_scan p t s = expand t (groups_of (snd p) ps) @ sub_scan p t r"
proof -
  from assms have len: "length r < length s" using rx_match_Lit_shorter by metis
  then obtain c cs where s: "s = c # cs" by (cases s) auto
  with len assms(2) show ?thesis by simp
qed

lemma sub_scan_nomatch:
  "rx_match (fst p) (c # cs) = None \<Longrightarrow> sub_scan p t (c # cs) = c # sub_scan p t cs"
  by simp

lemma sub_scan_other:
  assumes "fst p = Lit (q # qs) # is" and "c \<noteq> q"
  shows "sub_scan p t (c # cs) = c # sub_scan p t cs"
  using assms by (simp add: startswith_Cons)

lemma parse_link_repl: "parse_template (length (snd link_pattern)) link_repl = Some link_tpl"
  unfolding link_tpl_def by code_simp

lemma parse_bold_repl: "parse_template (length (snd bold_pattern)) bold_repl = Some bold_tpl"
  unfolding bold_tpl_def by code_simp

lemma re_sub_link: "re_sub link_pattern link_repl s = Some (sub_scan link_pattern link_tpl s)"
  by (simp add: re_sub_def parse_link_repl)

lemma re_sub_bold: "re_sub bold_pattern bold_repl s = Some (sub_scan bold_pattern bold_tpl s)"
  by (simp add: re_sub_def parse_bold_repl)

lemma expand_link: "expand link_tpl (groups_of (snd link_pattern) [a, l, b, u, c]) = anchor u l"
  by (simp add: link_tpl_def groups_of_def link_pattern_def anchor_def)

lemma expand_bold: "expand bold_tpl (groups_of (snd bold_pattern) [a, t, b]) = strong t"
  by (simp add: bold_tpl_def groups_of_def bold_pattern_def strong_def)

lemma link_match:
  assumes "newline \<notin> set l" "\<not> contains (l @ '']'') ''](''" "newline \<notin> set u" "CHR '')'' \<notin> set u"
  shows "rx_match (fst link_pattern) (''['' @ l @ ''](''  @ u @ '')'' @ r) = Some ([''['', l, '']('', u, '')''], r)"
proof -
  have nc: "\<not> contains (u @ butlast '')'') '')''" using assms(4)
    by (induction u) (auto simp: startswith_Cons startswith_Nil_left)
  have 1: "rx_match [Lazy Dot, Lit '')''] (u @ '')'' @ r) = Some ([u, '')''], r)"
    by (rule lazy_first) (use assms nc in auto)
  have 2: "rx_match [Lazy Dot, Lit '']('', Lazy Dot, Lit '')''] (l @ ''](''  @ u @ '')'' @ r) = Some ([l, '']('', u, '')''], r)"
    by (rule lazy_first) (use assms 1 in auto)
  show ?thesis unfolding link_pattern_def fst_conv
    using rx_match_Lit_append[of "''[''" _ "l @ ''](''  @ u @ '')'' @ r"] 2 by simp
qed

lemma bold_match:
  assumes "newline \<notin> set t" "\<not> contains (t @ ''*'') ''**''"
  shows "rx_match (fst bold_pattern) (''**'' @ t @ ''**'' @ r) = Some ([''**'', t, ''**''], r)"
proof -
  have 1: "rx_match [Lazy Dot, Lit ''**''] (t @ ''**'' @ r) = Some ([t, ''**''], r)"
    by (rule lazy_first) (use assms in auto)
  show ?thesis unfolding bold_pattern_def fst_conv
    using rx_match_Lit_append[of "''**''" _ "t @ ''**'' @ r"] 1 by simp
qed

lemma link_sub_step:
  assumes "newline \<notin> set l" "\<not> contains (l @ '']'') ''](''" "newline \<notin> set u" "CHR '')'' \<notin> set u"
  shows "sub_scan link_pattern link_tpl (''['' @ l @ ''](''  @ u @ '')'' @ r) = anchor u l @ sub_scan link_pattern link_tpl r"
  using sub_scan_match[OF _ link_match[OF assms], of "CHR ''[''" "[]" _ link_tpl r] expand_link
  by (simp add: link_pattern_def)

lemma bold_sub_step:
  assumes "newline \<notin> set t" "\<not> contains (t @ ''*'') ''**''"
  shows "sub_scan bold_pattern bold_tpl (''**'' @ t @ ''**'' @ r) = strong t @ sub_scan bold_pattern bold_tpl r"
  using sub_scan_match[OF _ bold_match[OF assms], of "CHR ''*''" "''*''" _ bold_tpl r] expand_bold
  by (simp add: bold_pattern_def)

lemma make_entry_eq:
  "make_entry cols = Some \<lparr>time = cols ! 0, venue = cols ! 1,
      paper = sub_scan link_pattern link_tpl (cols ! 2),
      question = sub_scan bold_pattern bold_tpl (cols ! 3),
      method = sub_scan bold_pattern bold_tpl (cols ! 4),
      remark = cols ! 5, bib = (if length cols > 6 then cols ! 6 else [])\<rparr>"
  by (simp add: make_entry_def re_sub_link re_sub_bold)

lemma process_lines_acc: "process_lines ls acc = map_option ((@) acc) (process_lines ls [])"
proof (induction ls arbitrary: acc)
  case Nil
  then show ?case by simp
next
  case (Cons l ls)
  show ?case
    using Cons[of "acc @ [the (make_entry (row_cols (strip l)))]"] Cons[of acc]
      Cons[of "[the (make_entry (row_cols (strip l)))]"]
    by (auto simp: Let_def make_entry_eq option.map_comp comp_def)
qed

lemma process_lines_total: "\<exists>out. process_lines ls acc = Some out"
  by (induction ls arbitrary: acc) (auto simp: Let_def make_entry_eq)

lemma process_lines_append:
  "process_lines (a @ b) acc = (case process_lines a acc of None \<Rightarrow> None | Some d \<Rightarrow> process_lines b d)"
  by (induction a arbitrary: acc) (auto simp: Let_def make_entry_eq)

section \<open>The rows of the table\<close>

lemma row_entry:
  assumes "startswith (strip l) ''|''" and "6 \<le> length (row_cols (strip l))"
  shows "\<exists>e rest. make_entry (row_cols (strip l)) = Some e \<and> process_lines ls [] = Some rest \<and>
           process_lines (l # ls) [] = Some (e # rest)"
proof -
  obtain rest where rest: "process_lines ls [] = Some rest"
    using process_lines_total by blast
  obtain e where e: "make_entry (row_cols (strip l)) = Some e"
    by (simp add: make_entry_eq)
  have "process_lines (l # ls) [] = process_lines ls [e]"
    using assms e by (simp add: Let_def)
  also have "\<dots> = Some (e # rest)"
    using process_lines_acc[of ls "[e]"] rest by simp
  finally show ?thesis using e rest by blast
qed

text \<open>
  Claim C6. A line that starts with the pipe but gives fewer than 6 cells is dropped
  without a record and without an error, and the loop goes on: the result of the loop is
  the one it has on the same lines with that line taken out.
\<close>

theorem short_row_discarded:
  assumes "startswith (strip l) ''|''" and "length (row_cols (strip l)) < 6"
  shows "process_lines (pre @ l # post) data = process_lines (pre @ post) data"
proof -
  have "process_lines (l # post) d = process_lines post d" for d
    using assms by (simp add: Let_def)
  then show ?thesis
    by (cases "process_lines pre data") (simp_all only: process_lines_append option.case)
qed

theorem short_row_discarded_witness:
  "startswith (strip ''| a | b | c | d | e |'') ''|'' \<and>
   length (row_cols (strip ''| a | b | c | d | e |'')) < 6 \<and>
   process_lines ([''| 1 | 2 | 3 | 4 | 5 | 6 |''] @ ''| a | b | c | d | e |'' # [''| t | v | p | q | m | r | b |'']) [] =
   process_lines ([''| 1 | 2 | 3 | 4 | 5 | 6 |''] @ [''| t | v | p | q | m | r | b |'']) []"
proof -
  have 1: "startswith (strip ''| a | b | c | d | e |'') ''|''" by code_simp
  have 2: "length (row_cols (strip ''| a | b | c | d | e |'')) < 6" by code_simp
  from short_row_discarded[OF 1 2] 1 2 show ?thesis by blast
qed

text \<open>
  Claim C9. A row of at least 6 cells puts one record in front of the records of the lines
  behind it; its \<open>bib\<close> is the empty string when the row has exactly 6 cells and the raw
  seventh cell otherwise.
\<close>

theorem row_bib_field:
  assumes "startswith (strip l) ''|''" and "6 \<le> length (row_cols (strip l))"
  shows "\<exists>e rest. process_lines ls [] = Some rest \<and> process_lines (l # ls) [] = Some (e # rest) \<and>
           bib e = (if length (row_cols (strip l)) = 6 then [] else row_cols (strip l) ! 6)"
proof -
  from row_entry[OF assms] obtain e rest where
    "make_entry (row_cols (strip l)) = Some e" "process_lines ls [] = Some rest"
    "process_lines (l # ls) [] = Some (e # rest)" by blast
  moreover from this(1) have "bib e = (if length (row_cols (strip l)) = 6 then [] else row_cols (strip l) ! 6)"
    using assms(2) by (auto simp: make_entry_eq)
  ultimately show ?thesis by blast
qed

theorem row_bib_field_witness:
  "startswith (strip ''| 1 | 2 | 3 | 4 | 5 | 6 |'') ''|'' \<and>
   6 \<le> length (row_cols (strip ''| 1 | 2 | 3 | 4 | 5 | 6 |'')) \<and>
   (\<exists>e rest. process_lines [] [] = Some rest \<and>
      process_lines [''| 1 | 2 | 3 | 4 | 5 | 6 |''] [] = Some (e # rest) \<and> bib e = [])"
proof -
  have 1: "startswith (strip ''| 1 | 2 | 3 | 4 | 5 | 6 |'') ''|''" by code_simp
  have 2: "6 \<le> length (row_cols (strip ''| 1 | 2 | 3 | 4 | 5 | 6 |''))" by code_simp
  have 3: "length (row_cols (strip ''| 1 | 2 | 3 | 4 | 5 | 6 |'')) = 6" by code_simp
  from row_bib_field[OF 1 2, of "[]"] 1 2 3 show ?thesis by simp
qed

lemma nontable_line_skipped:
  assumes "\<not> startswith (strip l) ''|''"
  shows "process_lines (pre @ l # post) data = process_lines (pre @ post) data"
proof -
  have "process_lines (l # post) d = process_lines post d" for d
    using assms by (simp add: Let_def)
  then show ?thesis
    by (cases "process_lines pre data") (simp_all only: process_lines_append option.case)
qed

text \<open>
  Claim C1. The claim is that a line that does not start with the pipe ends the table.
  The loop tests such a line twice: the first test is a \<open>continue\<close>, so the
  \<open>break\<close> of the second test, which the comment above it announces, is never
  reached. On the README below, a table of one row, a line of prose and a second row, the
  second row is returned as a record too.
\<close>

theorem nontable_line_does_not_stop:
  "parse_content
     (''| Time | Venue | Paper | Research Question/Idea | Method | Remark | Bib |'' @ [newline] @
      ''| --- | --- | --- | --- | --- | --- | --- |'' @ [newline] @
      ''| 1 | 2 | 3 | 4 | 5 | 6 | 7 |'' @ [newline] @
      ''The end.'' @ [newline] @
      ''| a | b | c | d | e | f | g |'') =
   Some ([\<lparr>time = ''1'', venue = ''2'', paper = ''3'', question = ''4'', method = ''5'',
            remark = ''6'', bib = ''7''\<rparr>,
          \<lparr>time = ''a'', venue = ''b'', paper = ''c'', question = ''d'', method = ''e'',
            remark = ''f'', bib = ''g''\<rparr>], [])"
  by code_simp

section \<open>The fields of a record\<close>

lemma link_other:
  "c \<noteq> CHR ''['' \<Longrightarrow> sub_scan link_pattern link_tpl (c # cs) = c # sub_scan link_pattern link_tpl cs"
  by (rule sub_scan_other[where q = "CHR ''[''" and qs = "[]"]) (simp_all add: link_pattern_def)

lemma bold_other:
  "c \<noteq> CHR ''*'' \<Longrightarrow> sub_scan bold_pattern bold_tpl (c # cs) = c # sub_scan bold_pattern bold_tpl cs"
  by (rule sub_scan_other[where q = "CHR ''*''" and qs = "''*''"]) (simp_all add: bold_pattern_def)

text \<open>
  Claim C7. The \<open>paper\<close> field of the record of a row is what \<open>re.sub\<close> with the link
  pattern and the anchor template makes of the third cell. That substitution is global and
  goes from left to right: where the text starts with a link, with the shortest label up
  to \<open>](\<close> and the shortest url up to \<open>)\<close>, the anchor is put out and the substitution goes
  on behind the link; where no link starts, the character there is kept as it is. The two examples of
  the claim are evaluated.
\<close>

theorem paper_links_rewritten:
  assumes "startswith (strip line) ''|''" and "6 \<le> length (row_cols (strip line))"
    and "newline \<notin> set l" and "\<not> contains (l @ '']'') ''](''"
    and "newline \<notin> set u" and "CHR '')'' \<notin> set u"
    and "\<not> (\<exists>ps r. c # cs = concat ps @ r \<and> list_all2 piece_ok (fst link_pattern) ps)"
  shows "(\<exists>e rest. process_lines (line # ls) [] = Some (e # rest) \<and>
            re_sub link_pattern link_repl (row_cols (strip line) ! 2) = Some (paper e)) \<and>
         re_sub link_pattern link_repl (''['' @ l @ ''](''  @ u @ '')'' @ r) =
           map_option ((@) (anchor u l)) (re_sub link_pattern link_repl r) \<and>
         re_sub link_pattern link_repl (c # cs) =
           map_option ((#) c) (re_sub link_pattern link_repl cs) \<and>
         re_sub link_pattern link_repl [] = Some [] \<and>
         re_sub link_pattern link_repl ''[Foo](http://x)'' = Some (anchor ''http://x'' ''Foo'') \<and>
         re_sub link_pattern link_repl ''[A](u) and [B](v)'' =
           Some (anchor ''u'' ''A'' @ '' and '' @ anchor ''v'' ''B'')"
proof -
  from row_entry[OF assms(1,2), of ls] obtain e rest where
    e: "make_entry (row_cols (strip line)) = Some e" "process_lines (line # ls) [] = Some (e # rest)"
    by blast
  from e(1) have "paper e = sub_scan link_pattern link_tpl (row_cols (strip line) ! 2)"
    by (auto simp: make_entry_eq)
  with e(2) have 1: "\<exists>e rest. process_lines (line # ls) [] = Some (e # rest) \<and>
            re_sub link_pattern link_repl (row_cols (strip line) ! 2) = Some (paper e)"
    by (auto simp: re_sub_link)
  have 2: "re_sub link_pattern link_repl (''['' @ l @ ''](''  @ u @ '')'' @ r) =
           map_option ((@) (anchor u l)) (re_sub link_pattern link_repl r)"
    using link_sub_step[OF assms(3-6), of r] by (simp only: re_sub_link option.map)
  have 3: "re_sub link_pattern link_repl (c # cs) = map_option ((#) c) (re_sub link_pattern link_repl cs)"
    using sub_scan_nomatch[OF rx_match_None_iff[THEN iffD2, OF assms(7)], of link_tpl]
    by (simp only: re_sub_link option.map)
  have 4: "re_sub link_pattern link_repl [] = Some []"
    by (simp add: re_sub_link)
  have 5: "re_sub link_pattern link_repl ''[Foo](http://x)'' = Some (anchor ''http://x'' ''Foo'')"
    by code_simp
  have 6: "re_sub link_pattern link_repl ''[A](u) and [B](v)'' =
           Some (anchor ''u'' ''A'' @ '' and '' @ anchor ''v'' ''B'')"
    by code_simp
  show ?thesis by (rule conjI[OF 1 conjI[OF 2 conjI[OF 3 conjI[OF 4 conjI[OF 5 6]]]]])
qed

theorem paper_links_rewritten_witness:
  "startswith (strip ''| 1 | 2 | [Foo](http://x) | 4 | 5 | 6 |'') ''|'' \<and>
   6 \<le> length (row_cols (strip ''| 1 | 2 | [Foo](http://x) | 4 | 5 | 6 |'')) \<and>
   newline \<notin> set ''Foo'' \<and> \<not> contains (''Foo'' @ '']'') '']('' \<and>
   newline \<notin> set ''http://x'' \<and> CHR '')'' \<notin> set ''http://x'' \<and>
   \<not> (\<exists>ps r. CHR ''['' # ''A] (b)'' = concat ps @ r \<and> list_all2 piece_ok (fst link_pattern) ps) \<and>
   (\<exists>e rest. process_lines [''| 1 | 2 | [Foo](http://x) | 4 | 5 | 6 |''] [] = Some (e # rest) \<and>
      re_sub link_pattern link_repl (row_cols (strip ''| 1 | 2 | [Foo](http://x) | 4 | 5 | 6 |'') ! 2) =
        Some (paper e)) \<and>
   re_sub link_pattern link_repl (''['' @ ''Foo'' @ ''](''  @ ''http://x'' @ '')'' @ ''!'') =
     map_option ((@) (anchor ''http://x'' ''Foo'')) (re_sub link_pattern link_repl ''!'') \<and>
   re_sub link_pattern link_repl (CHR ''['' # ''A] (b)'') =
     map_option ((#) (CHR ''['')) (re_sub link_pattern link_repl ''A] (b)'')"
proof -
  have 1: "startswith (strip ''| 1 | 2 | [Foo](http://x) | 4 | 5 | 6 |'') ''|''" by code_simp
  have 2: "6 \<le> length (row_cols (strip ''| 1 | 2 | [Foo](http://x) | 4 | 5 | 6 |''))" by code_simp
  have 3: "newline \<notin> set ''Foo''" by code_simp
  have 4: "\<not> contains (''Foo'' @ '']'') ''](''" by code_simp
  have 5: "newline \<notin> set ''http://x''" by code_simp
  have 6: "CHR '')'' \<notin> set ''http://x''" by code_simp
  have nm: "rx_match (fst link_pattern) (CHR ''['' # ''A] (b)'') = None" by code_simp
  have 7: "\<not> (\<exists>ps r. CHR ''['' # ''A] (b)'' = concat ps @ r \<and>
                  list_all2 piece_ok (fst link_pattern) ps)"
    by (rule rx_match_None_iff[THEN iffD1, OF nm])
  note t = paper_links_rewritten[OF 1 2 3 4 5 6 7, of "[]" "''!''"]
  show ?thesis
    apply (rule conjI, rule 1)
    apply (rule conjI, rule 2)
    apply (rule conjI, rule 3)
    apply (rule conjI, rule 4)
    apply (rule conjI, rule 5)
    apply (rule conjI, rule 6)
    apply (rule conjI, rule 7)
    apply (rule conjI, rule t[THEN conjunct1])
    apply (rule conjI, rule t[THEN conjunct2, THEN conjunct1])
    apply (rule t[THEN conjunct2, THEN conjunct2, THEN conjunct1])
    done
qed

text \<open>
  Claim C8. The \<open>question\<close> and the \<open>method\<close> field of the record of a row are what
  \<open>re.sub\<close> with the bold pattern makes of the fourth and of the fifth cell, each on its
  own; \<open>time\<close>, \<open>venue\<close>, \<open>remark\<close> and \<open>bib\<close> are cells as they are. The substitution is
  global: where the text starts with a bold span, with the shortest text up to the closing
  \<open>**\<close>, the \<open>strong\<close> element is put out and the substitution goes on behind the span; where
  no span starts, the character there is kept as it is.
\<close>

theorem bold_fields_rewritten:
  assumes "startswith (strip line) ''|''" and "6 \<le> length (row_cols (strip line))"
    and "newline \<notin> set t" and "\<not> contains (t @ ''*'') ''**''"
    and "\<not> (\<exists>ps r. c # cs = concat ps @ r \<and> list_all2 piece_ok (fst bold_pattern) ps)"
  shows "(\<exists>e rest. process_lines (line # ls) [] = Some (e # rest) \<and>
            re_sub bold_pattern bold_repl (row_cols (strip line) ! 3) = Some (question e) \<and>
            re_sub bold_pattern bold_repl (row_cols (strip line) ! 4) = Some (method e) \<and>
            time e = row_cols (strip line) ! 0 \<and> venue e = row_cols (strip line) ! 1 \<and>
            remark e = row_cols (strip line) ! 5 \<and>
            bib e = (if length (row_cols (strip line)) > 6 then row_cols (strip line) ! 6 else [])) \<and>
         re_sub bold_pattern bold_repl (''**'' @ t @ ''**'' @ r) =
           map_option ((@) (strong t)) (re_sub bold_pattern bold_repl r) \<and>
         re_sub bold_pattern bold_repl (c # cs) =
           map_option ((#) c) (re_sub bold_pattern bold_repl cs) \<and>
         re_sub bold_pattern bold_repl [] = Some [] \<and>
         re_sub bold_pattern bold_repl ''**Bar**'' = Some (strong ''Bar'')"
proof -
  from row_entry[OF assms(1,2), of ls] obtain e rest where
    e: "make_entry (row_cols (strip line)) = Some e" "process_lines (line # ls) [] = Some (e # rest)"
    by blast
  from e(1) have f: "re_sub bold_pattern bold_repl (row_cols (strip line) ! 3) = Some (question e)"
    "re_sub bold_pattern bold_repl (row_cols (strip line) ! 4) = Some (method e)"
    "time e = row_cols (strip line) ! 0" "venue e = row_cols (strip line) ! 1"
    "remark e = row_cols (strip line) ! 5"
    "bib e = (if length (row_cols (strip line)) > 6 then row_cols (strip line) ! 6 else [])"
    by (auto simp: make_entry_eq re_sub_bold)
  have 1: "\<exists>e rest. process_lines (line # ls) [] = Some (e # rest) \<and>
            re_sub bold_pattern bold_repl (row_cols (strip line) ! 3) = Some (question e) \<and>
            re_sub bold_pattern bold_repl (row_cols (strip line) ! 4) = Some (method e) \<and>
            time e = row_cols (strip line) ! 0 \<and> venue e = row_cols (strip line) ! 1 \<and>
            remark e = row_cols (strip line) ! 5 \<and>
            bib e = (if length (row_cols (strip line)) > 6 then row_cols (strip line) ! 6 else [])"
    by (intro exI conjI) (rule e(2) f)+
  have 2: "re_sub bold_pattern bold_repl (''**'' @ t @ ''**'' @ r) =
           map_option ((@) (strong t)) (re_sub bold_pattern bold_repl r)"
    using bold_sub_step[OF assms(3,4), of r] by (simp only: re_sub_bold option.map)
  have 3: "re_sub bold_pattern bold_repl (c # cs) = map_option ((#) c) (re_sub bold_pattern bold_repl cs)"
    using sub_scan_nomatch[OF rx_match_None_iff[THEN iffD2, OF assms(5)], of bold_tpl]
    by (simp only: re_sub_bold option.map)
  have 4: "re_sub bold_pattern bold_repl [] = Some []"
    by (simp add: re_sub_bold)
  have 5: "re_sub bold_pattern bold_repl ''**Bar**'' = Some (strong ''Bar'')"
    by code_simp
  show ?thesis by (rule conjI[OF 1 conjI[OF 2 conjI[OF 3 conjI[OF 4 5]]]])
qed

theorem bold_fields_rewritten_witness:
  "startswith (strip ''| 1 | 2 | 3 | **Q** | a **M** b | **6** |'') ''|'' \<and>
   6 \<le> length (row_cols (strip ''| 1 | 2 | 3 | **Q** | a **M** b | **6** |'')) \<and>
   newline \<notin> set ''Bar'' \<and> \<not> contains (''Bar'' @ ''*'') ''**'' \<and>
   \<not> (\<exists>ps r. CHR ''*'' # ''*b*'' = concat ps @ r \<and> list_all2 piece_ok (fst bold_pattern) ps) \<and>
   re_sub bold_pattern bold_repl (''**'' @ ''Bar'' @ ''**'' @ '' **x**'') =
     map_option ((@) (strong ''Bar'')) (re_sub bold_pattern bold_repl '' **x**'') \<and>
   re_sub bold_pattern bold_repl (CHR ''*'' # ''*b*'') =
     map_option ((#) (CHR ''*'')) (re_sub bold_pattern bold_repl ''*b*'')"
proof -
  have 1: "startswith (strip ''| 1 | 2 | 3 | **Q** | a **M** b | **6** |'') ''|''" by code_simp
  have 2: "6 \<le> length (row_cols (strip ''| 1 | 2 | 3 | **Q** | a **M** b | **6** |''))" by code_simp
  have 3: "newline \<notin> set ''Bar''" by code_simp
  have 4: "\<not> contains (''Bar'' @ ''*'') ''**''" by code_simp
  have nm: "rx_match (fst bold_pattern) (CHR ''*'' # ''*b*'') = None" by code_simp
  have 5: "\<not> (\<exists>ps r. CHR ''*'' # ''*b*'' = concat ps @ r \<and>
                  list_all2 piece_ok (fst bold_pattern) ps)"
    by (rule rx_match_None_iff[THEN iffD1, OF nm])
  note t = bold_fields_rewritten[OF 1 2 3 4 5, of "[]" "'' **x**''"]
  show ?thesis
    apply (rule conjI, rule 1)
    apply (rule conjI, rule 2)
    apply (rule conjI, rule 3)
    apply (rule conjI, rule 4)
    apply (rule conjI, rule 5)
    apply (rule conjI, rule t[THEN conjunct2, THEN conjunct1])
    apply (rule t[THEN conjunct2, THEN conjunct2, THEN conjunct1])
    done
qed

section \<open>Searching for a pattern\<close>

text \<open>
  Claim C5. When no part of the README is the header row, that is the seven names in any
  case, between pipes, with any white space around them, \<open>parse_readme\<close> returns no entry
  and prints that the header was not found, and the program ends there: the files are as
  they were, \<open>index.html\<close> being neither read nor written.
\<close>

theorem header_missing_no_injection:
  assumes "readme_md fs = Some content" and "\<not> occurs (fst header_pattern) content"
  shows "parse_readme fs = Some ([], [HeaderNotFound]) \<and> main fs = Some (fs, [HeaderNotFound])"
proof -
  from assms(2) have "rx_search (fst header_pattern) content = None"
    by (simp only: occurs_iff_search not_not)
  with assms(1) show ?thesis
    by (simp add: parse_readme_def parse_content_def main_def)
qed

theorem header_missing_no_injection_witness:
  "readme_md \<lparr>readme_md = Some ''| Time | Venue | Paper |'', index_html = Some ''const data = [];''\<rparr> =
     Some ''| Time | Venue | Paper |'' \<and>
   \<not> occurs (fst header_pattern) ''| Time | Venue | Paper |'' \<and>
   parse_readme \<lparr>readme_md = Some ''| Time | Venue | Paper |'', index_html = Some ''const data = [];''\<rparr> =
     Some ([], [HeaderNotFound]) \<and>
   main \<lparr>readme_md = Some ''| Time | Venue | Paper |'', index_html = Some ''const data = [];''\<rparr> =
     Some (\<lparr>readme_md = Some ''| Time | Venue | Paper |'', index_html = Some ''const data = [];''\<rparr>,
           [HeaderNotFound])"
proof -
  have 1: "readme_md \<lparr>readme_md = Some ''| Time | Venue | Paper |'', index_html = Some ''const data = [];''\<rparr> =
     Some ''| Time | Venue | Paper |''" by simp
  have "rx_search (fst header_pattern) ''| Time | Venue | Paper |'' = None" by code_simp
  then have 2: "\<not> occurs (fst header_pattern) ''| Time | Venue | Paper |''"
    by (simp only: occurs_iff_search not_not)
  note t = header_missing_no_injection[OF 1 2]
  show ?thesis
    by (rule conjI[OF 1 conjI[OF 2 t]])
qed

text \<open>
  Claim C4. When no part of \<open>index.html\<close> is a statement \<open>const data = [...];\<close>,
  \<open>update_index_html\<close> prints that the injection point was not found and writes nothing:
  the files are as they were.
\<close>

theorem missing_injection_point:
  assumes "index_html fs = Some html" and "\<not> occurs (fst data_pattern) html"
  shows "update_index_html data fs = Some (fs, [DataNotFound])"
proof -
  from assms(2) have "rx_search (fst data_pattern) html = None"
    by (simp only: occurs_iff_search not_not)
  with assms(1) show ?thesis
    by (simp add: update_index_html_def update_content_def)
qed

theorem missing_injection_point_witness:
  "index_html \<lparr>readme_md = None, index_html = Some ''<script>const data = [1, 2]</script>''\<rparr> =
     Some ''<script>const data = [1, 2]</script>'' \<and>
   \<not> occurs (fst data_pattern) ''<script>const data = [1, 2]</script>'' \<and>
   update_index_html [] \<lparr>readme_md = None, index_html = Some ''<script>const data = [1, 2]</script>''\<rparr> =
     Some (\<lparr>readme_md = None, index_html = Some ''<script>const data = [1, 2]</script>''\<rparr>,
           [DataNotFound])"
proof -
  have 1: "index_html \<lparr>readme_md = None, index_html = Some ''<script>const data = [1, 2]</script>''\<rparr> =
     Some ''<script>const data = [1, 2]</script>''" by simp
  have "rx_search (fst data_pattern) ''<script>const data = [1, 2]</script>'' = None" by code_simp
  then have 2: "\<not> occurs (fst data_pattern) ''<script>const data = [1, 2]</script>''"
    by (simp only: occurs_iff_search not_not)
  note t = missing_injection_point[OF 1 2, of "[]"]
  show ?thesis
    by (rule conjI[OF 1 conjI[OF 2 t]])
qed

section \<open>Facts about the injection\<close>

lemma expand_lits [simp]: "expand (map TLit j @ t) gs = j @ expand t gs"
  by (induction j) auto

lemma tpl_escape_backslash: "tpl_escape n backslash s = Some ([TLit backslash], 0)"
  by (simp add: tpl_escape_def backslash_def is_digit_def named_escape_def)

lemma parse_doubled:
  "parse_template n (replace_char j backslash [backslash, backslash] @ t) =
     map_option ((@) (map TLit j)) (parse_template n t)"
proof (induction j)
  case Nil
  show ?case by (simp add: option.map_ident)
next
  case (Cons x j)
  show ?case
  proof (cases "x = backslash")
    case True
    then show ?thesis
      using Cons by (simp add: tpl_escape_backslash option.map_comp comp_def)
  next
    case False
    then show ?thesis
      using Cons by (simp add: option.map_comp comp_def)
  qed
qed

lemma replace_char_doubles:
  "replace_char s backslash [backslash, backslash] =
     concat (map (\<lambda>c. if c = backslash then [backslash, backslash] else [c]) s)"
  by (induction s) auto

lemma tpl_escape_group1:
  assumes "s = [] \<or> \<not> is_digit (hd s)"
  shows "tpl_escape 1 (CHR ''1'') s = Some ([TGroup 1], 0)"
  using assms by (cases s) (auto simp: tpl_escape_def is_digit_def digit_val_def)

lemma replace_char_hd:
  "j \<noteq> [] \<Longrightarrow> \<not> is_digit (hd j) \<Longrightarrow>
     \<not> is_digit (hd (replace_char j backslash [backslash, backslash] @ t))"
  by (cases j) (auto simp: is_digit_def backslash_def)

lemma parse_data_repl:
  assumes "j \<noteq> []" "\<not> is_digit (hd j)"
  shows "parse_template (length (snd data_pattern))
           (data_repl (replace_char j backslash [backslash, backslash])) = Some (data_tpl j)"
proof -
  let ?e = "replace_char j backslash [backslash, backslash]"
  have n: "length (snd data_pattern) = 1" by (simp add: data_pattern_def)
  have e: "tpl_escape 1 (CHR ''1'') (?e @ '';'') = Some ([TGroup 1], 0)"
    by (rule tpl_escape_group1) (use replace_char_hd[OF assms, of "'';''"] in simp)
  have "parse_template 1 (?e @ '';'') = Some (map TLit j @ [TLit (CHR '';'')])"
    unfolding parse_doubled by (simp add: backslash_def)
  with e show ?thesis
    unfolding n data_repl_def data_tpl_def by simp
qed

lemma expand_data_tpl:
  "expand (data_tpl j) (groups_of (snd data_pattern) ps) = concat (take 6 ps) @ j @ '';''"
  by (simp add: data_tpl_def groups_of_def data_pattern_def)

lemma json_dumps_hd: "json_dumps data \<noteq> [] \<and> hd (json_dumps data) = CHR ''[''"
  by (simp add: json_dumps_def)

lemma re_sub_data:
  "re_sub data_pattern (data_repl (replace_char (json_dumps data) backslash [backslash, backslash])) s =
     Some (sub_scan data_pattern (data_tpl (json_dumps data)) s)"
proof -
  have "\<not> is_digit (hd (json_dumps data))"
    using json_dumps_hd[of data] by (simp add: is_digit_def)
  with json_dumps_hd[of data] parse_data_repl show ?thesis
    by (simp add: re_sub_def)
qed

lemma sub_scan_segments:
  "sub_scan data_pattern (data_tpl j) s = concat (map (seg_new j) (segments s))"
proof (induction s rule: segments.induct)
  case 1
  show ?case by simp
next
  case (2 c cs)
  show ?case
  proof (cases "rx_match (fst data_pattern) (c # cs)")
    case None
    with 2 show ?thesis by simp
  next
    case (Some a)
    obtain ps r where a: "a = (ps, r)" by (cases a)
    show ?thesis
    proof (cases "length r \<le> length cs")
      case True
      with 2 Some a show ?thesis
        by (simp add: expand_data_tpl)
    next
      case False
      with 2 Some a show ?thesis
        by simp
    qed
  qed
qed

lemma segments_text: "concat (map seg_text (segments s)) = s"
proof (induction s rule: segments.induct)
  case 1
  show ?case by simp
next
  case (2 c cs)
  show ?case
  proof (cases "rx_match (fst data_pattern) (c # cs)")
    case None
    with 2 show ?thesis by simp
  next
    case (Some a)
    obtain ps r where a: "a = (ps, r)" by (cases a)
    from rx_match_sound[OF Some[unfolded a]] have s: "c # cs = concat ps @ r" by simp
    show ?thesis
    proof (cases "length r \<le> length cs")
      case True
      have seg: "segments (c # cs) = Stmt ps # segments r" using Some a True by simp
      have ih: "concat (map seg_text (segments r)) = r"
        by (rule 2(2)[OF Some[unfolded a] refl True])
      show ?thesis unfolding seg using ih s by simp
    next
      case False
      with 2 Some a show ?thesis by simp
    qed
  qed
qed

lemma segments_stmt:
  "Stmt ps \<in> set (segments s) \<Longrightarrow> list_all2 piece_ok (fst data_pattern) ps"
proof (induction s rule: segments.induct)
  case 1
  then show ?case by simp
next
  case (2 c cs)
  show ?case
  proof (cases "rx_match (fst data_pattern) (c # cs)")
    case None
    with 2 show ?thesis by simp
  next
    case (Some a)
    obtain qs r where a: "a = (qs, r)" by (cases a)
    from rx_match_sound[OF Some[unfolded a]] have s: "list_all2 piece_ok (fst data_pattern) qs" by simp
    show ?thesis
    proof (cases "length r \<le> length cs")
      case True
      with 2 Some a s show ?thesis by auto
    next
      case False
      with 2 Some a show ?thesis by auto
    qed
  qed
qed

lemma update_content_found:
  assumes "occurs (fst data_pattern) html"
  shows "update_content data html =
           Some (Some (concat (map (seg_new (json_dumps data)) (segments html))), [Updated (length data)])"
proof -
  from assms have "rx_search (fst data_pattern) html \<noteq> None"
    unfolding occurs_iff_search .
  then show ?thesis
    by (simp add: update_content_def re_sub_data sub_scan_segments)
qed

section \<open>What the injection writes\<close>

text \<open>
  Claim C3. \<open>update_index_html\<close> doubles every backslash of the serialized JSON before
  it makes the replacement string of it. \<open>re.sub\<close> then parses that string without an
  error, and what it puts in the place of a match is the prefix of the match, the JSON as
  \<open>json.dumps\<close> returned it, character for character, and a semicolon. So the new
  document is the old one with that text in the place of each statement.
\<close>

theorem json_inserted_verbatim:
  assumes "occurs (fst data_pattern) html"
  shows "replace_char (json_dumps data) backslash [backslash, backslash] =
           concat (map (\<lambda>c. if c = backslash then [backslash, backslash] else [c]) (json_dumps data)) \<and>
         (\<exists>t. parse_template (length (snd data_pattern))
                (data_repl (replace_char (json_dumps data) backslash [backslash, backslash])) = Some t \<and>
              (\<forall>ps. expand t (groups_of (snd data_pattern) ps) =
                      concat (take 6 ps) @ json_dumps data @ '';'')) \<and>
         update_content data html =
           Some (Some (concat (map (seg_new (json_dumps data)) (segments html))),
                 [Updated (length data)])"
proof -
  have d: "\<not> is_digit (hd (json_dumps data))"
    using json_dumps_hd[of data] by (simp add: is_digit_def)
  have 1: "replace_char (json_dumps data) backslash [backslash, backslash] =
           concat (map (\<lambda>c. if c = backslash then [backslash, backslash] else [c]) (json_dumps data))"
    by (rule replace_char_doubles)
  have 2: "\<exists>t. parse_template (length (snd data_pattern))
                (data_repl (replace_char (json_dumps data) backslash [backslash, backslash])) = Some t \<and>
              (\<forall>ps. expand t (groups_of (snd data_pattern) ps) =
                      concat (take 6 ps) @ json_dumps data @ '';'')"
    using parse_data_repl[of "json_dumps data"] json_dumps_hd[of data] d expand_data_tpl
    by auto
  have 3: "update_content data html =
           Some (Some (concat (map (seg_new (json_dumps data)) (segments html))),
                 [Updated (length data)])"
    by (rule update_content_found[OF assms])
  show ?thesis by (rule conjI[OF 1 conjI[OF 2 3]])
qed

lemma json_dumps_example:
  "json_dumps [\<lparr>time = [], venue = [], paper = [], question = [], method = [],
                 remark = [CHR 0xE9], bib = []\<rparr>] =
     ''['' @ [newline] @ ''    {'' @ [newline] @
     ''        '' @ [dquote] @ ''time'' @ [dquote] @ '': '' @ [dquote, dquote] @ '','' @ [newline] @
     ''        '' @ [dquote] @ ''venue'' @ [dquote] @ '': '' @ [dquote, dquote] @ '','' @ [newline] @
     ''        '' @ [dquote] @ ''paper'' @ [dquote] @ '': '' @ [dquote, dquote] @ '','' @ [newline] @
     ''        '' @ [dquote] @ ''question'' @ [dquote] @ '': '' @ [dquote, dquote] @ '','' @ [newline] @
     ''        '' @ [dquote] @ ''method'' @ [dquote] @ '': '' @ [dquote, dquote] @ '','' @ [newline] @
     ''        '' @ [dquote] @ ''remark'' @ [dquote] @ '': '' @ [dquote, backslash] @ ''u00e9'' @ [dquote] @ '','' @ [newline] @
     ''        '' @ [dquote] @ ''bib'' @ [dquote] @ '': '' @ [dquote, dquote] @ [newline] @
     ''    }'' @ [newline] @ '']''"
  by code_simp

text \<open>
  Without the doubling the same JSON is no replacement string at all: \<open>\u\<close> is a bad
  escape, and \<open>re.sub\<close> raises.
\<close>

lemma undoubled_backslash_fails:
  "re_sub data_pattern
     (data_repl (json_dumps [\<lparr>time = [], venue = [], paper = [], question = [], method = [],
                               remark = [CHR 0xE9], bib = []\<rparr>]))
     ''const data = [];'' = None"
  by code_simp

theorem json_inserted_verbatim_witness:
  "occurs (fst data_pattern) ''const data = [];'' \<and>
   update_content [\<lparr>time = [], venue = [], paper = [], question = [], method = [],
                     remark = [CHR 0xE9, backslash], bib = []\<rparr>] ''const data = [];'' =
     Some (Some (concat (map (seg_new (json_dumps [\<lparr>time = [], venue = [], paper = [], question = [],
                     method = [], remark = [CHR 0xE9, backslash], bib = []\<rparr>])) (segments ''const data = [];''))),
           [Updated (length [\<lparr>time = [], venue = [], paper = [], question = [], method = [],
                     remark = [CHR 0xE9, backslash], bib = []\<rparr>])])"
proof -
  have "rx_search (fst data_pattern) ''const data = [];'' \<noteq> None" by code_simp
  then have 1: "occurs (fst data_pattern) ''const data = [];''"
    unfolding occurs_iff_search .
  note t = json_inserted_verbatim[OF 1, of "[\<lparr>time = [], venue = [], paper = [], question = [],
                     method = [], remark = [CHR 0xE9, backslash], bib = []\<rparr>]"]
  show ?thesis
    by (rule conjI[OF 1 t[THEN conjunct2, THEN conjunct2]])
qed

text \<open>
  Claim C10. \<open>re.sub\<close> is called without a count, so it does not stop at the first
  statement. A document is its segments one after the other, each statement among them
  being a match of the data pattern; when it has more than one statement and the injection
  writes a document, that document is the same segments with every statement replaced by
  its prefix, the serialized JSON and a semicolon, and every other character kept.
\<close>

theorem every_statement_replaced:
  assumes "update_content data html = Some (Some out, msgs)"
    and "1 < length (filter is_stmt (segments html))"
  shows "html = concat (map seg_text (segments html)) \<and>
         out = concat (map (seg_new (json_dumps data)) (segments html)) \<and>
         (\<forall>ps. Stmt ps \<in> set (segments html) \<longrightarrow> list_all2 piece_ok (fst data_pattern) ps)"
proof -
  from assms(1) have "rx_search (fst data_pattern) html \<noteq> None"
    by (auto simp: update_content_def Let_def split: if_splits)
  then have "occurs (fst data_pattern) html" unfolding occurs_iff_search .
  from update_content_found[OF this, of data] assms(1)
  have "out = concat (map (seg_new (json_dumps data)) (segments html))" by simp
  then show ?thesis using segments_text[of html] segments_stmt[of _ html] by auto
qed

theorem every_statement_replaced_witness:
  "update_content [] ''a const data = [1]; b const  data=[2, 3]; c'' =
     Some (Some ''a const data = []; b const  data=[]; c'', [Updated 0]) \<and>
   1 < length (filter is_stmt (segments ''a const data = [1]; b const  data=[2, 3]; c'')) \<and>
   ''a const data = []; b const  data=[]; c'' =
     concat (map (seg_new (json_dumps [])) (segments ''a const data = [1]; b const  data=[2, 3]; c''))"
proof -
  have 1: "update_content [] ''a const data = [1]; b const  data=[2, 3]; c'' =
     Some (Some ''a const data = []; b const  data=[]; c'', [Updated 0])" by code_simp
  have 2: "1 < length (filter is_stmt (segments ''a const data = [1]; b const  data=[2, 3]; c''))"
    by code_simp
  note t = every_statement_replaced[OF 1 2]
  show ?thesis
    by (rule conjI[OF 1 conjI[OF 2 t[THEN conjunct2, THEN conjunct1]]])
qed

section \<open>Running the injection twice\<close>

lemma contains_Nil_right [simp]: "contains s []"
  by (cases s) auto

lemma contains_mid: "contains (x @ q @ y) q"
proof (induction x)
  case Nil
  show ?case
  proof (cases "q @ y")
    case Nil
    then show ?thesis by simp
  next
    case (Cons a list)
    have "startswith (q @ y) q" by simp
    with Cons show ?thesis by simp
  qed
next
  case (Cons a x)
  then show ?case by simp
qed

lemma contains_decomp: "contains v q \<Longrightarrow> \<exists>x y. v = x @ q @ y"
proof (induction v)
  case Nil
  then show ?case by simp
next
  case (Cons a v)
  show ?case
  proof (cases "startswith (a # v) q")
    case True
    then have "a # v = [] @ q @ drop (length q) (a # v)"
      using startswith_decomp by fastforce
    then show ?thesis by blast
  next
    case False
    with Cons obtain x y where "v = x @ q @ y" by auto
    then have "a # v = (a # x) @ q @ y" by simp
    then show ?thesis by blast
  qed
qed

lemma contains_Cons: "contains s q \<Longrightarrow> contains (c # s) q"
  by simp

lemma contains_suffix: "contains s q \<Longrightarrow> contains (t @ s) q"
  by (induction t) auto

lemma data_match_decomp:
  assumes "rx_match (fst data_pattern) s = Some (ps, r)"
  shows "\<exists>w1 w2 w3 b. ps = [''const'', w1, ''data'', w2, ''='', w3, ''['', b, ''];''] \<and>
           data_prefix w1 w2 w3 \<and>
           s = ''const'' @ w1 @ ''data'' @ w2 @ ''='' @ w3 @ ''['' @ b @ ''];'' @ r"
proof -
  from rx_match_sound[OF assms] have s: "s = concat ps @ r"
    and l: "list_all2 piece_ok (fst data_pattern) ps" by auto
  from l obtain w1 w2 w3 b where ps: "ps = [''const'', w1, ''data'', w2, ''='', w3, ''['', b, ''];'']"
    and "data_prefix w1 w2 w3"
    by (auto simp: data_pattern_def list_all2_Cons1 data_prefix_def)
  with s show ?thesis by auto
qed

lemma data_match_build:
  assumes "data_prefix w1 w2 w3" and "\<not> contains (b @ '']'') ''];''"
  shows "rx_match (fst data_pattern)
           (''const'' @ w1 @ ''data'' @ w2 @ ''='' @ w3 @ ''['' @ b @ ''];'' @ r) =
         Some ([''const'', w1, ''data'', w2, ''='', w3, ''['', b, ''];''], r)"
proof -
  from assms(1) have w: "w1 \<noteq> []" "\<forall>c\<in>set w1. in_cls Space c" "\<forall>c\<in>set w2. in_cls Space c"
    "\<forall>c\<in>set w3. in_cls Space c" by (auto simp: data_prefix_def)
  have 8: "rx_match [Lazy Any, Lit ''];''] (b @ ''];'' @ r) = Some ([b, ''];''], r)"
    by (rule lazy_first) (use assms(2) in auto)
  have 7: "rx_match [Lit ''['', Lazy Any, Lit ''];''] (''['' @ b @ ''];'' @ r) =
             Some ([''['', b, ''];''], r)"
    by (simp only: rx_match_Lit_append 8 push_simps)
  have 6: "rx_match [Star Space, Lit ''['', Lazy Any, Lit ''];''] (w3 @ ''['' @ b @ ''];'' @ r) =
             Some ([w3, ''['', b, ''];''], r)"
    by (rule star_greedy[OF w(4) _ 7]) (simp add: is_space_def)
  have 5: "rx_match [Lit ''='', Star Space, Lit ''['', Lazy Any, Lit ''];'']
             (''='' @ w3 @ ''['' @ b @ ''];'' @ r) = Some ([''='', w3, ''['', b, ''];''], r)"
    by (simp only: rx_match_Lit_append 6 push_simps)
  have 4: "rx_match [Star Space, Lit ''='', Star Space, Lit ''['', Lazy Any, Lit ''];'']
             (w2 @ ''='' @ w3 @ ''['' @ b @ ''];'' @ r) = Some ([w2, ''='', w3, ''['', b, ''];''], r)"
    by (rule star_greedy[OF w(3) _ 5]) (simp add: is_space_def)
  have 3: "rx_match [Lit ''data'', Star Space, Lit ''='', Star Space, Lit ''['', Lazy Any, Lit ''];'']
             (''data'' @ w2 @ ''='' @ w3 @ ''['' @ b @ ''];'' @ r) =
             Some ([''data'', w2, ''='', w3, ''['', b, ''];''], r)"
    by (simp only: rx_match_Lit_append 4 push_simps)
  have 2: "rx_match [Plus Space, Lit ''data'', Star Space, Lit ''='', Star Space, Lit ''['', Lazy Any, Lit ''];'']
             (w1 @ ''data'' @ w2 @ ''='' @ w3 @ ''['' @ b @ ''];'' @ r) =
             Some ([w1, ''data'', w2, ''='', w3, ''['', b, ''];''], r)"
    by (rule plus_greedy[OF w(1) w(2) _ 3]) (simp add: is_space_def)
  show ?thesis unfolding data_pattern_def fst_conv
    by (simp only: rx_match_Lit_append 2 push_simps)
qed

lemma data_match_exists:
  assumes "data_prefix w1 w2 w3" and "contains v ''];''"
  shows "rx_match (fst data_pattern) (''const'' @ w1 @ ''data'' @ w2 @ ''='' @ w3 @ ''['' @ v) \<noteq> None"
proof -
  from contains_decomp[OF assms(2)] obtain x y where v: "v = x @ ''];'' @ y" by blast
  have "list_all2 piece_ok (fst data_pattern) [''const'', w1, ''data'', w2, ''='', w3, ''['', x, ''];'']"
    using assms(1) by (simp add: data_pattern_def data_prefix_def)
  from rx_match_complete[OF this, of y] show ?thesis unfolding v by simp
qed

lemma data_match_contains:
  assumes "rx_match (fst data_pattern) s = Some (ps, r)"
  shows "contains s ''];''"
proof -
  from data_match_decomp[OF assms] obtain w1 w2 w3 b where
    "s = (''const'' @ w1 @ ''data'' @ w2 @ ''='' @ w3 @ ''['' @ b) @ ''];'' @ r" by auto
  then show ?thesis using contains_mid by metis
qed

lemma data_match_hd:
  assumes "rx_match (fst data_pattern) (c # cs) = Some (ps, r)"
  shows "c = CHR ''c''"
  using data_match_decomp[OF assms] by auto

lemma spliced_match:
  assumes "rx_match (fst data_pattern) s = Some (ps, r)"
  shows "spliced j s = concat (take 6 ps) @ j @ '';'' @ spliced j r"
proof -
  have "fst data_pattern = Lit (CHR ''c'' # ''onst'') # tl (fst data_pattern)"
    by (simp add: data_pattern_def)
  from sub_scan_match[OF this assms, of "data_tpl j"] show ?thesis
    by (simp only: expand_data_tpl append_assoc)
qed

lemma spliced_nomatch:
  "rx_match (fst data_pattern) (c # cs) = None \<Longrightarrow> spliced j (c # cs) = c # spliced j cs"
  by (rule sub_scan_nomatch)

lemma data_no_match_other:
  assumes "c \<noteq> CHR ''c''"
  shows "rx_match (fst data_pattern) (c # cs) = None"
proof (cases "rx_match (fst data_pattern) (c # cs)")
  case None
  then show ?thesis .
next
  case (Some a)
  obtain ps r where "a = (ps, r)" by (cases a)
  with Some data_match_hd assms show ?thesis by blast
qed

lemma spliced_copy:
  "CHR ''c'' \<notin> set u \<Longrightarrow> spliced j (u @ v) = u @ spliced j v"
proof (induction u)
  case Nil
  show ?case by simp
next
  case (Cons a u)
  then have "rx_match (fst data_pattern) (a # u @ v) = None"
    using data_no_match_other[of a "u @ v"] by auto
  from spliced_nomatch[OF this, of j] Cons show ?case by simp
qed

lemma spliced_copy_rev:
  "spliced j cs = u @ t \<Longrightarrow> CHR ''c'' \<notin> set u \<Longrightarrow> \<exists>v. cs = u @ v \<and> t = spliced j v"
proof (induction u arbitrary: cs)
  case Nil
  then show ?case by simp
next
  case (Cons a u)
  from Cons.prems obtain x xs where cs: "cs = x # xs" by (cases cs) auto
  show ?case
  proof (cases "rx_match (fst data_pattern) (x # xs)")
    case None
    from spliced_nomatch[OF None, of j] Cons.prems(1) cs
    have "x = a" "spliced j xs = u @ t" by auto
    with Cons.IH[of xs] Cons.prems(2) cs show ?thesis by auto
  next
    case (Some m)
    obtain ps r where m: "m = (ps, r)" by (cases m)
    from data_match_decomp[OF Some[unfolded m]] obtain w1 where "hd ps = ''const''" "ps \<noteq> []"
      by auto
    then have "hd (concat (take 6 ps) @ j @ '';'' @ spliced j r) = CHR ''c''"
      by (cases ps) auto
    with spliced_match[OF Some[unfolded m], of j] Cons.prems cs show ?thesis by auto
  qed
qed

lemma spliced_id:
  "\<not> contains v ''];'' \<Longrightarrow> spliced j v = v"
proof (induction v)
  case Nil
  show ?case by simp
next
  case (Cons c v)
  have "rx_match (fst data_pattern) (c # v) = None"
  proof (cases "rx_match (fst data_pattern) (c # v)")
    case None
    then show ?thesis .
  next
    case (Some m)
    obtain ps r where "m = (ps, r)" by (cases m)
    with Some data_match_contains Cons.prems show ?thesis by blast
  qed
  from spliced_nomatch[OF this, of j] Cons show ?case by simp
qed

lemma space_not_c: "\<not> is_space (CHR ''c'')"
  by (simp add: is_space_def)

lemma data_prefix_no_c:
  assumes "data_prefix w1 w2 w3"
  shows "CHR ''c'' \<notin> set w1 \<and> CHR ''c'' \<notin> set w2 \<and> CHR ''c'' \<notin> set w3"
  using assms space_not_c unfolding data_prefix_def by blast

lemma spliced_keeps_no_match:
  assumes "rx_match (fst data_pattern) (c # cs) = None"
  shows "rx_match (fst data_pattern) (c # spliced j cs) = None"
proof (cases "rx_match (fst data_pattern) (c # spliced j cs)")
  case None
  then show ?thesis .
next
  case (Some m)
  obtain ps r where m: "m = (ps, r)" by (cases m)
  from data_match_decomp[OF Some[unfolded m]] obtain w1 w2 w3 b where
    pre: "data_prefix w1 w2 w3" and
    eq: "c # spliced j cs = ''const'' @ w1 @ ''data'' @ w2 @ ''='' @ w3 @ ''['' @ b @ ''];'' @ r"
    by blast
  let ?u = "''onst'' @ w1 @ ''data'' @ w2 @ ''='' @ w3 @ ''[''"
  from eq have c: "c = CHR ''c''" and sp: "spliced j cs = ?u @ (b @ ''];'' @ r)" by auto
  have nc: "CHR ''c'' \<notin> set ?u"
    using data_prefix_no_c[OF pre] by simp
  from spliced_copy_rev[OF sp nc] obtain v where v: "cs = ?u @ v" "b @ ''];'' @ r = spliced j v"
    by blast
  have "contains v ''];''"
  proof (rule ccontr)
    assume "\<not> contains v ''];''"
    then have "spliced j v = v" by (rule spliced_id)
    with v(2) have "v = b @ ''];'' @ r" by simp
    with \<open>\<not> contains v ''];''\<close> contains_mid[of b "''];''" r] show False by simp
  qed
  from data_match_exists[OF pre this] have "rx_match (fst data_pattern) (c # cs) \<noteq> None"
    unfolding c v(1) by simp
  with assms show ?thesis by contradiction
qed

lemma spliced_rematch:
  assumes "rx_match (fst data_pattern) s = Some (ps, r)"
    and "\<not> contains (''['' @ jb @ '']'') ''];''"
  shows "rx_match (fst data_pattern) (concat (take 6 ps) @ (''['' @ jb @ '']'') @ '';'' @ t) =
           Some (take 6 ps @ [''['', jb, ''];''], t)"
proof -
  from data_match_decomp[OF assms(1)] obtain w1 w2 w3 b where
    ps: "ps = [''const'', w1, ''data'', w2, ''='', w3, ''['', b, ''];'']" and pre: "data_prefix w1 w2 w3"
    by blast
  from assms(2) have nb: "\<not> contains (jb @ '']'') ''];''" by simp
  from data_match_build[OF pre nb, of t] show ?thesis unfolding ps by simp
qed

lemma spliced_idem:
  assumes "\<not> contains (''['' @ jb @ '']'') ''];''"
  shows "spliced (''['' @ jb @ '']'') (spliced (''['' @ jb @ '']'') s) = spliced (''['' @ jb @ '']'') s"
proof (induction "length s" arbitrary: s rule: less_induct)
  case less
  let ?j = "''['' @ jb @ '']''"
  show ?case
  proof (cases s)
    case Nil
    then show ?thesis by simp
  next
    case (Cons c cs)
    show ?thesis
    proof (cases "rx_match (fst data_pattern) (c # cs)")
      case None
      have ih: "spliced ?j (spliced ?j cs) = spliced ?j cs"
        using less[of cs] Cons by simp
      from spliced_keeps_no_match[OF None, of ?j]
      have "spliced ?j (c # spliced ?j cs) = c # spliced ?j (spliced ?j cs)"
        by (rule spliced_nomatch)
      with ih spliced_nomatch[OF None, of ?j] Cons show ?thesis by simp
    next
      case (Some m)
      obtain ps r where m: "m = (ps, r)" by (cases m)
      note mt = Some[unfolded m]
      have "length r < length (c # cs)"
        using mt rx_match_Lit_shorter[of "CHR ''c''" "''onst''" "tl (fst data_pattern)" "c # cs" ps r]
        by (simp add: data_pattern_def)
      then have ih: "spliced ?j (spliced ?j r) = spliced ?j r"
        using less[of r] Cons by simp
      have f1: "spliced ?j (c # cs) = concat (take 6 ps) @ ?j @ '';'' @ spliced ?j r"
        by (rule spliced_match[OF mt])
      have len: "length ps = 9" using data_match_decomp[OF mt] by auto
      have "spliced ?j (concat (take 6 ps) @ ?j @ '';'' @ spliced ?j r) =
              concat (take 6 (take 6 ps @ [''['', jb, ''];''])) @ ?j @ '';'' @ spliced ?j (spliced ?j r)"
        by (rule spliced_match[OF spliced_rematch[OF mt assms]])
      also have "take 6 (take 6 ps @ [''['', jb, ''];'']) = take 6 ps" using len by simp
      finally show ?thesis using f1 ih Cons by simp
    qed
  qed
qed

lemma spliced_search:
  assumes "\<not> contains (''['' @ jb @ '']'') ''];''"
  shows "rx_search (fst data_pattern) s \<noteq> None \<Longrightarrow>
           rx_search (fst data_pattern) (spliced (''['' @ jb @ '']'') s) \<noteq> None"
proof (induction s)
  case Nil
  then show ?case by (simp add: data_pattern_def)
next
  case (Cons c cs)
  let ?j = "''['' @ jb @ '']''"
  show ?case
  proof (cases "rx_match (fst data_pattern) (c # cs)")
    case None
    with Cons have "rx_search (fst data_pattern) (spliced ?j cs) \<noteq> None" by simp
    then show ?thesis
      unfolding spliced_nomatch[OF None] by (simp split: option.splits)
  next
    case (Some m)
    obtain ps r where m: "m = (ps, r)" by (cases m)
    note mt = Some[unfolded m]
    have "rx_match (fst data_pattern) (spliced ?j (c # cs)) \<noteq> None"
      unfolding spliced_match[OF mt] using spliced_rematch[OF mt assms] by simp
    then show ?thesis
      by (cases "spliced ?j (c # cs)") (auto split: option.splits)
  qed
qed

lemma json_dumps_shape: "\<exists>jb. json_dumps data = ''['' @ jb @ '']''"
  by (cases "data = []") (auto simp: json_dumps_def)

lemma contains_append_iff:
  "contains (a @ b) ''];'' \<longleftrightarrow>
     contains a ''];'' \<or> contains b ''];'' \<or>
     (a \<noteq> [] \<and> last a = CHR '']'' \<and> b \<noteq> [] \<and> hd b = CHR '';'')"
proof (induction a)
  case Nil
  show ?case by simp
next
  case (Cons x a)
  show ?case
  proof (cases a)
    case Nil
    then show ?thesis by (cases b) (auto simp: startswith_Cons startswith_Nil_left)
  next
    case (Cons y a')
    with Cons.IH show ?thesis by (auto simp: startswith_Cons)
  qed
qed

lemma safe_append: "safe a \<Longrightarrow> safe b \<Longrightarrow> safe (a @ b)"
  unfolding safe_def contains_append_iff by (cases a; cases b) auto

lemma safe_plain:
  assumes "CHR '']'' \<notin> set s" "CHR '';'' \<notin> set s"
  shows "safe s"
proof -
  have "\<not> contains s ''];''" using assms(1)
    by (induction s) (auto simp: startswith_Cons)
  moreover have "s \<noteq> [] \<Longrightarrow> hd s \<noteq> CHR '';'' \<and> last s \<noteq> CHR '']''"
    using assms by (metis hd_in_set last_in_set)
  ultimately show ?thesis unfolding safe_def by blast
qed


lemma no_bracket: "CHR '']'' \<notin> set s \<Longrightarrow> \<not> contains s ''];''"
  by (induction s) (auto simp: startswith_Cons)

lemma hex4_subset: "set (hex4 n) \<subseteq> set ''0123456789abcdef''"
proof -
  have h: "''0123456789abcdef'' ! (n div 16 ^ i mod 16) \<in> set ''0123456789abcdef''" for i
    by (rule nth_mem) simp
  show ?thesis
    by (simp only: hex4_def set_map image_subset_iff) (rule ballI, rule h)
qed

lemma hex4_plain: "CHR '']'' \<notin> set (hex4 n) \<and> CHR '';'' \<notin> set (hex4 n)"
proof -
  have "CHR '']'' \<notin> set ''0123456789abcdef''" "CHR '';'' \<notin> set ''0123456789abcdef''"
    by simp_all
  with hex4_subset[of n] show ?thesis by (meson subsetD)
qed

lemma json_char_facts:
  "json_char c \<noteq> [] \<and> \<not> contains (json_char c) ''];'' \<and>
   (last (json_char c) = CHR '']'' \<longrightarrow> c = CHR '']'') \<and>
   (hd (json_char c) = CHR '';'' \<longrightarrow> c = CHR '';'')"
proof -
  have h: "CHR '']'' \<notin> set (hex4 (of_char c))" "hex4 (of_char c) \<noteq> []"
    using hex4_plain[of "of_char c"] by (auto simp: hex4_def)
  then have l: "last (hex4 (of_char c)) \<noteq> CHR '']''"
    by (metis last_in_set)
  have "\<not> contains (backslash # CHR ''u'' # hex4 (of_char c)) ''];''"
    by (rule no_bracket) (use h in \<open>simp add: backslash_def\<close>)
  with h l show ?thesis
    unfolding json_char_def
    by (simp add: backslash_def dquote_def startswith_Cons startswith_Nil_left)
qed

lemma json_chars_safe:
  "\<not> contains v ''];'' \<Longrightarrow> \<not> contains (concat (map json_char v)) ''];''"
proof (induction v)
  case Nil
  show ?case by simp
next
  case (Cons c v)
  from Cons have ih: "\<not> contains (concat (map json_char v)) ''];''" by simp
  have "\<not> (last (json_char c) = CHR '']'' \<and> concat (map json_char v) \<noteq> [] \<and>
          hd (concat (map json_char v)) = CHR '';'')"
  proof
    assume a: "last (json_char c) = CHR '']'' \<and> concat (map json_char v) \<noteq> [] \<and>
          hd (concat (map json_char v)) = CHR '';''"
    then have c: "c = CHR '']''" using json_char_facts[of c] by blast
    from a obtain d v' where v: "v = d # v'" by (cases v) auto
    with a json_char_facts[of d] have "hd (json_char d) = CHR '';''" by simp
    then have "d = CHR '';''" using json_char_facts[of d] by blast
    with c v Cons.prems show False by (simp add: startswith_Cons)
  qed
  with ih json_char_facts[of c] show ?case
    by (simp add: contains_append_iff)
qed

lemma json_string_safe: "\<not> contains v ''];'' \<Longrightarrow> safe (json_string v)"
proof -
  assume "\<not> contains v ''];''"
  then have n: "\<not> contains (concat (map json_char v)) ''];''" by (rule json_chars_safe)
  have "json_string v = [dquote] @ concat (map json_char v) @ [dquote]"
    by (simp add: json_string_def)
  moreover have "\<not> contains ([dquote] @ concat (map json_char v) @ [dquote]) ''];''"
    using n by (simp add: contains_append_iff dquote_def startswith_Cons startswith_Nil_left)
  ultimately show ?thesis by (simp add: safe_def dquote_def)
qed

lemma json_member_safe:
  assumes "CHR '']'' \<notin> set k" "CHR '';'' \<notin> set k" "\<not> contains v ''];''"
  shows "safe (json_member k v)"
proof -
  have k: "safe (json_string k)" by (rule json_string_safe[OF no_bracket[OF assms(1)]])
  have 1: "safe (newline # replicate 8 (CHR '' ''))"
    by (rule safe_plain) (simp_all add: newline_def)
  have 2: "safe '': ''" by (rule safe_plain) simp_all
  have "json_member k v = (newline # replicate 8 (CHR '' '')) @ json_string k @ '': '' @ json_string v"
    by (simp add: json_member_def)
  then show ?thesis
    using safe_append[OF 1 safe_append[OF k safe_append[OF 2 json_string_safe[OF assms(3)]]]]
    by simp
qed


lemma json_entry_safe:
  assumes "clean_entry e"
  shows "safe (json_entry e)"
proof -
  from assms have m:
    "safe (json_member ''time'' (time e))" "safe (json_member ''venue'' (venue e))"
    "safe (json_member ''paper'' (paper e))" "safe (json_member ''question'' (question e))"
    "safe (json_member ''method'' (method e))" "safe (json_member ''remark'' (remark e))"
    "safe (json_member ''bib'' (bib e))"
    unfolding clean_entry_def by (auto intro!: json_member_safe)
  have o: "safe ''{''" and c: "safe '',''"
    and z: "safe (newline # replicate 4 (CHR '' '') @ ''}'')"
    by (rule safe_plain; simp add: newline_def)+
  have "safe (''{'' @ json_member ''time'' (time e) @ '','' @ json_member ''venue'' (venue e) @ '','' @
     json_member ''paper'' (paper e) @ '','' @ json_member ''question'' (question e) @ '','' @
     json_member ''method'' (method e) @ '','' @ json_member ''remark'' (remark e) @ '','' @
     json_member ''bib'' (bib e) @ (newline # replicate 4 (CHR '' '') @ ''}''))"
    by (intro safe_append m o c z)
  then show ?thesis by (simp add: json_entry_def)
qed

lemma json_items_safe:
  "\<forall>e\<in>set data. clean_entry e \<Longrightarrow> safe (json_items data)"
proof (induction data rule: json_items.induct)
  case 1
  show ?case by (simp add: safe_def)
next
  case (2 e)
  have i: "safe (newline # replicate 4 (CHR '' ''))"
    by (rule safe_plain; simp add: newline_def)
  from 2 have "safe (json_entry e)" by (simp add: json_entry_safe)
  from safe_append[OF i this] show ?case by simp
next
  case (3 e e' es)
  have i: "safe (newline # replicate 4 (CHR '' ''))" and c: "safe '',''"
    by (rule safe_plain; simp add: newline_def)+
  from 3 have e: "safe (json_entry e)" and r: "safe (json_items (e' # es))"
    by (simp_all add: json_entry_safe)
  from safe_append[OF i safe_append[OF e safe_append[OF c r]]] show ?case by simp
qed

lemma clean_entries_json:
  assumes "\<forall>e\<in>set data. clean_entry e"
  shows "\<not> contains (json_dumps data) ''];''"
proof (cases "data = []")
  case True
  then show ?thesis by (simp add: json_dumps_def startswith_Cons startswith_Nil_left)
next
  case False
  have o: "safe ''[''" and n: "safe [newline]"
    by (rule safe_plain; simp add: newline_def)+
  from safe_append[OF o safe_append[OF json_items_safe[OF assms] n]]
  have "safe (''['' @ json_items data @ [newline])" .
  then have "\<not> contains ((''['' @ json_items data @ [newline]) @ '']'') ''];''"
    unfolding contains_append_iff safe_def
    by (simp add: startswith_Cons startswith_Nil_left)
  with False show ?thesis by (simp add: json_dumps_def)
qed


lemma contains_appendI1: "contains a ''];'' \<Longrightarrow> contains (a @ b) ''];''"
  by (simp add: contains_append_iff)

lemma contains_appendI2: "contains b ''];'' \<Longrightarrow> contains (a @ b) ''];''"
  by (simp add: contains_append_iff)

lemma json_char_plain: "json_char (CHR '']'') = '']''" "json_char (CHR '';'') = '';''"
  by (simp_all add: json_char_def dquote_def backslash_def)

lemma json_string_dirty:
  assumes "contains v ''];''"
  shows "contains (json_string v) ''];''"
proof -
  from contains_decomp[OF assms] obtain x y where "v = x @ ''];'' @ y" by blast
  then have "concat (map json_char v) =
      concat (map json_char x) @ ''];'' @ concat (map json_char y)"
    by (simp add: json_char_plain)
  then have "contains (concat (map json_char v)) ''];''"
    using contains_mid by metis
  then show ?thesis
    unfolding json_string_def
    using contains_appendI1 contains_appendI2 by (metis append_Cons append_Nil)
qed

lemma json_member_dirty: "contains v ''];'' \<Longrightarrow> contains (json_member k v) ''];''"
  unfolding json_member_def
  using json_string_dirty[of v] contains_appendI2 by (metis append_Cons)

lemma json_entry_dirty:
  assumes "\<not> clean_entry e"
  shows "contains (json_entry e) ''];''"
proof -
  from assms consider "contains (time e) ''];''" | "contains (venue e) ''];''"
    | "contains (paper e) ''];''" | "contains (question e) ''];''" | "contains (method e) ''];''"
    | "contains (remark e) ''];''" | "contains (bib e) ''];''"
    unfolding clean_entry_def by blast
  then show ?thesis
    unfolding json_entry_def
    by cases (intro contains_appendI2 contains_appendI1 json_member_dirty, assumption)+
qed

lemma json_items_dirty:
  "e \<in> set data \<Longrightarrow> \<not> clean_entry e \<Longrightarrow> contains (json_items data) ''];''"
proof (induction data rule: json_items.induct)
  case 1
  then show ?case by simp
next
  case (2 d)
  then have "contains (json_entry d) ''];''" by (simp add: json_entry_dirty)
  then have "contains ((newline # replicate 4 (CHR '' '')) @ json_entry d) ''];''"
    by (rule contains_appendI2)
  then show ?case by simp
next
  case (3 d d' ds)
  show ?case
  proof (cases "e = d")
    case True
    with 3 have "contains (json_entry d) ''];''" by (simp add: json_entry_dirty)
    then have "contains ((newline # replicate 4 (CHR '' '')) @ json_entry d @ '','' @ json_items (d' # ds)) ''];''"
      by (intro contains_appendI2 contains_appendI1)
    then show ?thesis by simp
  next
    case False
    with 3 have "contains (json_items (d' # ds)) ''];''" by simp
    then have "contains ((newline # replicate 4 (CHR '' '')) @ json_entry d @ '','' @ json_items (d' # ds)) ''];''"
      by (intro contains_appendI2)
    then show ?thesis by simp
  qed
qed

lemma json_clean_iff:
  "\<not> contains (json_dumps data) ''];'' \<longleftrightarrow> (\<forall>e\<in>set data. clean_entry e)"
proof
  assume n: "\<not> contains (json_dumps data) ''];''"
  show "\<forall>e\<in>set data. clean_entry e"
  proof (rule ccontr)
    assume "\<not> (\<forall>e\<in>set data. clean_entry e)"
    then obtain e where e: "e \<in> set data" "\<not> clean_entry e" by blast
    then have ne: "data \<noteq> []" by auto
    from json_items_dirty[OF e] have "contains (''['' @ json_items data @ [newline] @ '']'') ''];''"
      by (intro contains_appendI2 contains_appendI1)
    with ne n show False by (simp add: json_dumps_def)
  qed
next
  assume "\<forall>e\<in>set data. clean_entry e"
  then show "\<not> contains (json_dumps data) ''];''" by (rule clean_entries_json)
qed

text \<open>
  Claim C2. As stated the claim fails: the data pattern stops at the first \<open>];\<close>, and a
  cell may hold that text. With one record whose remark is \<open>];\<close>, the first run on
  \<open>const data = [];\<close> writes the statement with the serialized JSON; the second run, on
  that document, matches only up to the \<open>];\<close> inside the remark and writes a different
  document.
\<close>

theorem reinjection_not_idempotent:
  "update_content
     [\<lparr>time = ''1'', venue = ''2'', paper = ''3'', question = ''4'', method = ''5'',
        remark = ''];'', bib = []\<rparr>] ''const data = [];'' =
   Some (Some (''const data = '' @
               json_dumps [\<lparr>time = ''1'', venue = ''2'', paper = ''3'', question = ''4'',
                              method = ''5'', remark = ''];'', bib = []\<rparr>] @ '';''),
         [Updated 1]) \<and>
   update_content
     [\<lparr>time = ''1'', venue = ''2'', paper = ''3'', question = ''4'', method = ''5'',
        remark = ''];'', bib = []\<rparr>]
     (''const data = '' @
      json_dumps [\<lparr>time = ''1'', venue = ''2'', paper = ''3'', question = ''4'',
                     method = ''5'', remark = ''];'', bib = []\<rparr>] @ '';'') \<noteq>
   Some (Some (''const data = '' @
               json_dumps [\<lparr>time = ''1'', venue = ''2'', paper = ''3'', question = ''4'',
                              method = ''5'', remark = ''];'', bib = []\<rparr>] @ '';''),
         [Updated 1])"
  by code_simp

lemma reinjection_json:
  assumes "\<not> contains (json_dumps data) ''];''"
    and "update_content data html = Some (Some out, msgs)"
  shows "update_content data out = Some (Some out, msgs)"
proof -
  obtain jb where j: "json_dumps data = ''['' @ jb @ '']''"
    using json_dumps_shape by blast
  from assms(1) have nc: "\<not> contains (''['' @ jb @ '']'') ''];''" unfolding j .
  from assms(2) have found: "rx_search (fst data_pattern) html \<noteq> None"
    by (auto simp: update_content_def Let_def split: if_splits)
  with assms(2) have out: "out = spliced (json_dumps data) html"
    and msgs: "msgs = [Updated (length data)]"
    by (auto simp: update_content_def re_sub_data)
  have "rx_search (fst data_pattern) out \<noteq> None"
    unfolding out j by (rule spliced_search[OF nc found])
  moreover have "spliced (json_dumps data) out = out"
    unfolding out j by (rule spliced_idem[OF nc])
  ultimately show ?thesis
    by (simp add: update_content_def re_sub_data msgs)
qed

text \<open>
  Claim C2, amended. When \<open>];\<close> is in no field of any record, which is the same as its
  not being in the serialized JSON, and a run of the injection writes a document, a second
  run with the same records on that document writes the same document again.
\<close>

theorem reinjection_idempotent:
  assumes "\<forall>e\<in>set data. clean_entry e"
    and "update_content data html = Some (Some out, msgs)"
  shows "update_content data out = Some (Some out, msgs)"
  using reinjection_json[OF json_clean_iff[THEN iffD2, OF assms(1)] assms(2)] .

theorem reinjection_idempotent_witness:
  "clean_entry \<lparr>time = ''2024'', venue = ''V'', paper = ''[P]'', question = ''q;'',
                method = ''m'', remark = [backslash], bib = []\<rparr> \<and>
   update_content [\<lparr>time = ''2024'', venue = ''V'', paper = ''[P]'', question = ''q;'',
                     method = ''m'', remark = [backslash], bib = []\<rparr>] ''const data = [1, 2];'' =
     Some (Some (''const data = '' @
                 json_dumps [\<lparr>time = ''2024'', venue = ''V'', paper = ''[P]'', question = ''q;'',
                                method = ''m'', remark = [backslash], bib = []\<rparr>] @ '';''),
           [Updated 1]) \<and>
   update_content [\<lparr>time = ''2024'', venue = ''V'', paper = ''[P]'', question = ''q;'',
                     method = ''m'', remark = [backslash], bib = []\<rparr>]
     (''const data = '' @
      json_dumps [\<lparr>time = ''2024'', venue = ''V'', paper = ''[P]'', question = ''q;'',
                     method = ''m'', remark = [backslash], bib = []\<rparr>] @ '';'') =
     Some (Some (''const data = '' @
                 json_dumps [\<lparr>time = ''2024'', venue = ''V'', paper = ''[P]'', question = ''q;'',
                                method = ''m'', remark = [backslash], bib = []\<rparr>] @ '';''),
           [Updated 1])"
proof -
  have 0: "clean_entry \<lparr>time = ''2024'', venue = ''V'', paper = ''[P]'', question = ''q;'',
                method = ''m'', remark = [backslash], bib = []\<rparr>"
    by code_simp
  then have 1: "\<forall>e\<in>set [\<lparr>time = ''2024'', venue = ''V'', paper = ''[P]'', question = ''q;'',
                  method = ''m'', remark = [backslash], bib = []\<rparr>]. clean_entry e"
    by simp
  have 2: "update_content [\<lparr>time = ''2024'', venue = ''V'', paper = ''[P]'', question = ''q;'',
                     method = ''m'', remark = [backslash], bib = []\<rparr>] ''const data = [1, 2];'' =
     Some (Some (''const data = '' @
                 json_dumps [\<lparr>time = ''2024'', venue = ''V'', paper = ''[P]'', question = ''q;'',
                                method = ''m'', remark = [backslash], bib = []\<rparr>] @ '';''),
           [Updated 1])"
    by code_simp
  note t = reinjection_idempotent[OF 1 2]
  show ?thesis by (rule conjI[OF 0 conjI[OF 2 t]])
qed

end
